theory Spec2Isabelle
  imports Complex_Main "HOL-Library.Sublist" "HOL-Library.AList"
begin

chapter \<open>The model\<close>

section \<open>Strings of the host language\<close>

text \<open>
  A JavaScript string is a sequence of code units. The model uses \<^typ>\<open>string\<close>, so a
  character is a code unit below 256. \<open>String.prototype.trim\<close> removes white space and
  line terminators from both ends; below 256 these are the code units 9 to 13, 32 and 160.
\<close>

definition is_space :: "char \<Rightarrow> bool" where
  "is_space c = (of_char c \<in> {9, 10, 11, 12, 13, 32, 160 :: nat})"

definition trim :: "string \<Rightarrow> string" where
  "trim s = rev (dropWhile is_space (rev (dropWhile is_space s)))"

text \<open>\<open>s.includes(sub)\<close>: \<open>sub\<close> occurs in \<open>s\<close> as a contiguous run (case sensitive).\<close>

fun str_includes :: "string \<Rightarrow> string \<Rightarrow> bool" where
  "str_includes [] sub = (sub = [])"
| "str_includes (c # cs) sub = (prefix sub (c # cs) \<or> str_includes cs sub)"

text \<open>\<open>s.split('\n')\<close>: the pieces between line feeds; the empty string gives one empty piece.\<close>

fun split_nl :: "string \<Rightarrow> string list" where
  "split_nl [] = [[]]"
| "split_nl (c # cs) =
     (if c = CHR 0x0A then [] # split_nl cs
      else (case split_nl cs of [] \<Rightarrow> [[c]] | l # ls \<Rightarrow> (c # l) # ls))"

text \<open>\<open>s.substring(0, n)\<close> for a non-negative count \<open>n\<close>.\<close>

definition substring0 :: "nat \<Rightarrow> string \<Rightarrow> string" where
  "substring0 n s = take n s"

section \<open>Exceptions\<close>

text \<open>
  A function that can throw returns a sum: the exception on the left, the result on the
  right. \<open>ApiError\<close> is the \<open>Error\<close> thrown for a response that is not ok.
\<close>

datatype js_error = TypeError | SyntaxError | ApiError

section \<open>PRPParser.sanitizePRPContent\<close>

text \<open>
  \<^verbatim>\<open>content.replace(/[<>]/g, '').replace(/['"]/g, '"').trim()\<close>:
  code unit \<open>0x27\<close> is the single quote and \<open>0x22\<close> the double quote.
\<close>

definition strip_angle :: "string \<Rightarrow> string" where
  "strip_angle s = filter (\<lambda>c. c \<noteq> CHR ''<'' \<and> c \<noteq> CHR ''>'') s"

definition normalize_quotes :: "string \<Rightarrow> string" where
  "normalize_quotes s = map (\<lambda>c. if c = CHR 0x27 \<or> c = CHR 0x22 then CHR 0x22 else c) s"

definition sanitizePRPContent :: "string \<Rightarrow> string" where
  "sanitizePRPContent content = trim (normalize_quotes (strip_angle content))"

section \<open>Tasks\<close>

text \<open>
  The task record keeps the fields that the utility functions read. \<open>task_id\<close> is the
  field \<open>id\<close>. An optional field is an \<open>option\<close>; \<open>createdAt\<close> and
  \<open>completedAt\<close> are the dates' \<open>getTime()\<close> values in milliseconds; hours are
  numbers, taken as reals.
\<close>

datatype TaskStatus = TODO | IN_PROGRESS | BLOCKED | IN_REVIEW | DONE

datatype TaskPriority = CRITICAL | HIGH | MEDIUM | LOW

record Task =
  task_id :: string
  projectId :: string
  status :: TaskStatus
  priority :: TaskPriority
  dependencies :: "string list option"
  estimatedHours :: "real option"
  actualHours :: "real option"
  createdAt :: int
  completedAt :: "int option"

record ValidationResult =
  isValid :: bool
  errors :: "string list"

text \<open>
  A task of project \<open>p\<close> with the given id, status, priority, dependency list and day
  of creation, for the examples.
\<close>

definition scenarioTask :: "string \<Rightarrow> TaskStatus \<Rightarrow> TaskPriority \<Rightarrow> string list \<Rightarrow> int \<Rightarrow> Task" where
  "scenarioTask i st pr ds day =
     \<lparr>task_id = i, projectId = ''p'', status = st, priority = pr, dependencies = Some ds,
      estimatedHours = None, actualHours = None, createdAt = day, completedAt = None\<rparr>"

section \<open>validateTaskDependencies\<close>

text \<open>\<open>allTasks.find(t => t.id === x)\<close>: the first task carrying the id.\<close>

definition find_task :: "Task list \<Rightarrow> string \<Rightarrow> Task option" where
  "find_task allTasks x = find (\<lambda>t. task_id t = x) allTasks"

text \<open>\<open>task.dependencies || []\<close>\<close>

definition deps_or_empty :: "Task \<Rightarrow> string list" where
  "deps_or_empty t = (case dependencies t of None \<Rightarrow> [] | Some ds \<Rightarrow> ds)"

text \<open>
  The edges that \<open>hasCycle\<close> follows from a node: the proposed dependencies for
  \<open>taskId\<close> itself, the stored ones for every other task, none for an unknown id.
\<close>

definition currentDeps :: "string \<Rightarrow> string list \<Rightarrow> Task list \<Rightarrow> string \<Rightarrow> string list" where
  "currentDeps taskId deps allTasks currentTaskId =
     (if currentTaskId = taskId then deps
      else (case find_task allTasks currentTaskId of None \<Rightarrow> [] | Some t \<Rightarrow> deps_or_empty t))"

text \<open>The two sets that the closure \<open>hasCycle\<close> mutates.\<close>

record dfs =
  visited :: "string set"
  recursionStack :: "string set"

text \<open>Every id that can follow an edge; it bounds the traversal.\<close>

definition mentioned :: "string \<Rightarrow> string list \<Rightarrow> Task list \<Rightarrow> string set" where
  "mentioned taskId deps allTasks =
     insert taskId (set deps \<union> (\<Union>t \<in> set allTasks. set (deps_or_empty t)))"

lemma finite_mentioned: "finite (mentioned taskId deps allTasks)"
  by (simp add: mentioned_def)

lemma find_task_mem: "find_task ts x = Some t \<Longrightarrow> t \<in> set ts"
  by (auto simp: find_task_def find_Some_iff)

lemma currentDeps_mentioned:
  "set (currentDeps taskId deps allTasks c) \<subseteq> mentioned taskId deps allTasks"
  by (auto simp: currentDeps_def mentioned_def split: option.splits dest: find_task_mem [OF sym])

text \<open>
  \<open>hasCycle\<close> with its \<open>for\<close> loop over the dependencies as \<open>hasCycle_loop\<close>. Both
  return the answer and the updated sets. On the answer \<open>true\<close> the source returns at
  once, leaving the node on the recursion stack.
\<close>

function hasCycle :: "string \<Rightarrow> string list \<Rightarrow> Task list \<Rightarrow> string \<Rightarrow> dfs \<Rightarrow> bool \<times> dfs"
  and hasCycle_loop :: "string \<Rightarrow> string list \<Rightarrow> Task list \<Rightarrow> string list \<Rightarrow> dfs \<Rightarrow> bool \<times> dfs"
where
  "hasCycle taskId deps allTasks currentTaskId s =
     (if currentTaskId \<in> recursionStack s then (True, s)
      else if currentTaskId \<in> visited s then (False, s)
      else
        (case hasCycle_loop taskId deps allTasks (currentDeps taskId deps allTasks currentTaskId)
                (s\<lparr>visited := insert currentTaskId (visited s),
                   recursionStack := insert currentTaskId (recursionStack s)\<rparr>) of
           (found, s') \<Rightarrow>
             if found then (True, s')
             else (False, s'\<lparr>recursionStack := recursionStack s' - {currentTaskId}\<rparr>)))"
| "hasCycle_loop taskId deps allTasks [] s = (False, s)"
| "hasCycle_loop taskId deps allTasks (depId # rest) s =
     (case hasCycle taskId deps allTasks depId s of
        (found, s') \<Rightarrow>
          if found then (True, s') else hasCycle_loop taskId deps allTasks rest s')"
  by pat_completeness auto

text \<open>The visited set only grows; this is what makes the traversal terminate.\<close>

lemma visited_grows:
  "hasCycle_hasCycle_loop_dom (Inl (taskId, deps, allTasks, c, s)) \<Longrightarrow>
     visited s \<subseteq> visited (snd (hasCycle taskId deps allTasks c s))"
  "hasCycle_hasCycle_loop_dom (Inr (taskId, deps, allTasks, l, s)) \<Longrightarrow>
     visited s \<subseteq> visited (snd (hasCycle_loop taskId deps allTasks l s))"
proof (induction taskId deps allTasks c s and taskId deps allTasks l s rule: hasCycle_hasCycle_loop.pinduct)
  case (1 taskId deps allTasks currentTaskId s)
  then show ?case
    by (auto simp: hasCycle.psimps split: prod.splits bool.splits if_splits)
next
  case (2 taskId deps allTasks s)
  then show ?case by (simp add: hasCycle_loop.psimps)
next
  case (3 taskId deps allTasks depId rest s)
  obtain b s' where r: "hasCycle taskId deps allTasks depId s = (b, s')"
    by (cases "hasCycle taskId deps allTasks depId s")
  with 3(2) have v: "visited s \<subseteq> visited s'" by simp
  show ?case
  proof (cases b)
    case True
    with r v 3(1) show ?thesis by (simp add: hasCycle_loop.psimps)
  next
    case False
    with r 3(3) [of b s']
    have "visited s' \<subseteq> visited (snd (hasCycle_loop taskId deps allTasks rest s'))" by simp
    with v False r 3(1) show ?thesis by (simp add: hasCycle_loop.psimps)
  qed
qed

definition dfs_measure ::
  "string \<times> string list \<times> Task list \<times> string \<times> dfs + string \<times> string list \<times> Task list \<times> string list \<times> dfs
     \<Rightarrow> nat \<times> nat \<times> nat" where
  "dfs_measure x =
     (case x of
        Inl (taskId, deps, allTasks, c, s) \<Rightarrow>
          (card (insert c (mentioned taskId deps allTasks) - visited s), 0, 0)
      | Inr (taskId, deps, allTasks, l, s) \<Rightarrow>
          (card ((mentioned taskId deps allTasks \<union> set l) - visited s), 1, length l))"

termination hasCycle
proof (relation "inv_image (less_than <*lex*> less_than <*lex*> less_than) dfs_measure", goal_cases)
  case 1
  then show ?case by (intro wf_inv_image wf_lex_prod wf_less_than)
next
  case (2 taskId deps allTasks c s)
  let ?U = "mentioned taskId deps allTasks"
  have "(?U \<union> set (currentDeps taskId deps allTasks c)) - insert c (visited s)
          \<subset> insert c ?U - visited s"
    using 2 currentDeps_mentioned [of taskId deps allTasks c] by auto
  then have "card ((?U \<union> set (currentDeps taskId deps allTasks c)) - insert c (visited s))
          < card (insert c ?U - visited s)"
    by (intro psubset_card_mono) (auto simp: finite_mentioned)
  then show ?case by (simp add: dfs_measure_def)
next
  case (3 taskId deps allTasks depId rest s)
  let ?U = "mentioned taskId deps allTasks"
  have "card (insert depId ?U - visited s) \<le> card ((?U \<union> set (depId # rest)) - visited s)"
    by (intro card_mono) (auto simp: finite_mentioned)
  then show ?case by (auto simp: dfs_measure_def)
next
  case (4 taskId deps allTasks depId rest s x y)
  let ?U = "mentioned taskId deps allTasks"
  from 4 visited_grows(1) [of taskId deps allTasks depId s]
  have "visited s \<subseteq> visited y" by (metis snd_conv)
  then have "card ((?U \<union> set rest) - visited y) \<le> card ((?U \<union> set (depId # rest)) - visited s)"
    by (intro card_mono) (auto simp: finite_mentioned)
  then show ?case by (auto simp: dfs_measure_def)
qed

declare hasCycle.simps [simp del]

text \<open>
  The dependency graph seen from \<open>taskId\<close>, and the property that a node reaches a
  cycle of it.
\<close>

definition dep_edges :: "string \<Rightarrow> string list \<Rightarrow> Task list \<Rightarrow> (string \<times> string) set" where
  "dep_edges taskId deps allTasks = {(a, b). b \<in> set (currentDeps taskId deps allTasks a)}"

definition reaches_cycle :: "(string \<times> string) set \<Rightarrow> string \<Rightarrow> bool" where
  "reaches_cycle E a = (\<exists>v. (a, v) \<in> E\<^sup>* \<and> (v, v) \<in> E\<^sup>+)"

text \<open>
  The graph in the words of the specification, written without the functions above. An id
  resolves to the first task of the list that carries it, which is the only one when ids
  are unique. The edges of \<open>taskId\<close> are the proposed dependencies; the edges of any
  other id are the entries of the \<open>dependencies\<close> field of the task it resolves to.
\<close>

definition first_with_id :: "Task list \<Rightarrow> string \<Rightarrow> Task \<Rightarrow> bool" where
  "first_with_id tasks x t \<longleftrightarrow>
     (\<exists>i < length tasks. tasks ! i = t \<and> task_id t = x \<and> (\<forall>j < i. task_id (tasks ! j) \<noteq> x))"

definition proposed_edges :: "string \<Rightarrow> string list \<Rightarrow> Task list \<Rightarrow> (string \<times> string) set" where
  "proposed_edges taskId deps allTasks =
     {(a, b). (a = taskId \<and> b \<in> set deps) \<or>
              (a \<noteq> taskId \<and>
               (\<exists>t ds. first_with_id allTasks a t \<and> dependencies t = Some ds \<and> b \<in> set ds))}"

text \<open>
  Two collections for a proposal that \<open>a\<close> depend on \<open>b\<close>. In the first, \<open>b\<close>
  depends on \<open>a\<close>. In the second the stored dependency of \<open>a\<close> lies on a cycle
  through \<open>d\<close>, and the proposed one leads to \<open>b\<close> and \<open>c\<close> only.
\<close>

definition cycleTasks :: "Task list" where
  "cycleTasks = [scenarioTask ''b'' TODO MEDIUM [''a''] 1]"

definition reroutedTasks :: "Task list" where
  "reroutedTasks =
     [scenarioTask ''a'' TODO MEDIUM [''d''] 1,
      scenarioTask ''b'' TODO MEDIUM [''c''] 2,
      scenarioTask ''c'' TODO MEDIUM [] 3,
      scenarioTask ''d'' TODO MEDIUM [''a''] 4]"

text \<open>\<open>allTasks.find(t => t.id === taskId)?.projectId\<close>\<close>

definition taskProjectId :: "Task list \<Rightarrow> string \<Rightarrow> string option" where
  "taskProjectId allTasks taskId = map_option projectId (find_task allTasks taskId)"

text \<open>The body of the last loop: one dependency id checked against the task's project.\<close>

definition checkDependency :: "string \<Rightarrow> Task list \<Rightarrow> string \<Rightarrow> string list \<Rightarrow> string list" where
  "checkDependency p allTasks depId errs =
     (case find_task allTasks depId of
        None \<Rightarrow> errs @ [''Dependency task '' @ depId @ '' not found'']
      | Some depTask \<Rightarrow>
          if projectId depTask \<noteq> p
          then errs @ [''Dependency task '' @ depId @ '' is not in the same project'']
          else errs)"

definition validateTaskDependencies :: "string \<Rightarrow> string list \<Rightarrow> Task list \<Rightarrow> ValidationResult" where
  "validateTaskDependencies taskId deps allTasks =
     (if deps = [] then \<lparr>isValid = True, errors = []\<rparr>
      else
        let errors1 = (if taskId \<in> set deps then [''Task cannot depend on itself''] else []);
            errors2 =
              (if fst (hasCycle taskId deps allTasks taskId \<lparr>visited = {}, recursionStack = {}\<rparr>)
               then errors1 @ [''Circular dependency detected'']
               else errors1);
            errors3 =
              (case taskProjectId allTasks taskId of
                 None \<Rightarrow> errors2
               | Some p \<Rightarrow>
                   if p = [] then errors2
                   else fold (checkDependency p allTasks) deps errors2)
        in \<lparr>isValid = (errors3 = []), errors = errors3\<rparr>)"

section \<open>findNextTask\<close>

text \<open>The dependency check inside the filter: every dependency id resolves to a done task.\<close>

definition dependenciesMet :: "Task list \<Rightarrow> Task \<Rightarrow> bool" where
  "dependenciesMet tasks task =
     (case dependencies task of
        None \<Rightarrow> True
      | Some ds \<Rightarrow>
          if ds \<noteq> []
          then list_all (\<lambda>depId. case find_task tasks depId of
                                   None \<Rightarrow> False
                                 | Some depTask \<Rightarrow> status depTask = DONE) ds
          else True)"

definition isAvailable :: "Task list \<Rightarrow> bool \<Rightarrow> Task \<Rightarrow> bool" where
  "isAvailable tasks excludeBlocked task =
     (if status task = DONE then False
      else if excludeBlocked \<and> status task = BLOCKED then False
      else if status task = IN_PROGRESS then False
      else dependenciesMet tasks task)"

fun priorityOrder :: "TaskPriority \<Rightarrow> int" where
  "priorityOrder CRITICAL = 0"
| "priorityOrder HIGH = 1"
| "priorityOrder MEDIUM = 2"
| "priorityOrder LOW = 3"

definition compareTasks :: "Task \<Rightarrow> Task \<Rightarrow> int" where
  "compareTasks a b =
     (let priorityDiff = priorityOrder (priority a) - priorityOrder (priority b)
      in if priorityDiff \<noteq> 0 then priorityDiff else createdAt a - createdAt b)"

text \<open>
  \<open>Array.prototype.sort\<close> with a comparator is a stable sort: an element goes before the
  first element that it does not follow.
\<close>

fun insert_sorted :: "('a \<Rightarrow> 'a \<Rightarrow> int) \<Rightarrow> 'a \<Rightarrow> 'a list \<Rightarrow> 'a list" where
  "insert_sorted cmp x [] = [x]"
| "insert_sorted cmp x (y # ys) =
     (if cmp x y \<le> 0 then x # y # ys else y # insert_sorted cmp x ys)"

definition array_sort :: "('a \<Rightarrow> 'a \<Rightarrow> int) \<Rightarrow> 'a list \<Rightarrow> 'a list" where
  "array_sort cmp xs = foldr (insert_sorted cmp) xs []"

definition findNextTask :: "Task list \<Rightarrow> bool \<Rightarrow> Task option" where
  "findNextTask tasks excludeBlocked =
     (let availableTasks = filter (isAvailable tasks excludeBlocked) tasks
      in if availableTasks = [] then None
         else (case array_sort compareTasks availableTasks of
                 [] \<Rightarrow> None
               | first # _ \<Rightarrow> Some first))"

text \<open>
  Eligibility and the order of preference, in the words of the specification. A dependency
  id resolves to the first task of the list that carries it, the one task with that id when
  ids are unique.
\<close>

definition eligible :: "Task list \<Rightarrow> bool \<Rightarrow> Task \<Rightarrow> bool" where
  "eligible tasks excludeBlocked t \<longleftrightarrow>
     status t \<noteq> DONE \<and> status t \<noteq> IN_PROGRESS \<and>
     (excludeBlocked \<longrightarrow> status t \<noteq> BLOCKED) \<and>
     (\<forall>ds depId. dependencies t = Some ds \<and> depId \<in> set ds \<longrightarrow>
        (\<exists>d. first_with_id tasks depId d \<and> status d = DONE))"

definition precedes :: "Task \<Rightarrow> Task \<Rightarrow> bool" where
  "precedes a b \<longleftrightarrow>
     priorityOrder (priority a) < priorityOrder (priority b) \<or>
     (priorityOrder (priority a) = priorityOrder (priority b) \<and> createdAt a \<le> createdAt b)"

text \<open>Scenario A of the specification: the seven tasks of the unit test, by creation day.\<close>

definition scenarioA :: "Task list" where
  "scenarioA =
     [scenarioTask ''task1'' DONE HIGH [] 1,
      scenarioTask ''task2'' BLOCKED CRITICAL [] 2,
      scenarioTask ''task3'' IN_PROGRESS MEDIUM [] 3,
      scenarioTask ''task4'' TODO HIGH [] 4,
      scenarioTask ''task5'' TODO MEDIUM [] 5,
      scenarioTask ''task6'' TODO HIGH [''task1''] 6,
      scenarioTask ''task7'' TODO CRITICAL [''task4''] 7]"

text \<open>
  A collection in which the task to pick waits for a finished one: \<open>y\<close> depends on
  \<open>d\<close>, which is done; \<open>z\<close> names a dependency that no task carries and \<open>w\<close>
  depends on \<open>x\<close>, which is not done.
\<close>

definition pickTasks :: "Task list" where
  "pickTasks =
     [scenarioTask ''x'' TODO LOW [] 1,
      scenarioTask ''d'' DONE HIGH [] 2,
      scenarioTask ''y'' TODO CRITICAL [''d''] 3,
      scenarioTask ''z'' TODO CRITICAL [''ghost''] 0,
      scenarioTask ''w'' TODO CRITICAL [''x''] 0]"

section \<open>calculateProjectAnalytics\<close>

record ProjectAnalytics =
  totalTasks :: nat
  completedTasks :: nat
  inProgressTasks :: nat
  blockedTasks :: nat
  completionRate :: real
  averageTaskDuration :: real
  totalEstimatedHours :: real
  totalActualHours :: real
  efficiencyRatio :: real

text \<open>
  \<open>safeToNumber\<close> on a value of the declared type \<open>number | undefined\<close>: a missing value
  counts as zero.
\<close>

definition safeToNumber :: "real option \<Rightarrow> real" where
  "safeToNumber v = (case v of None \<Rightarrow> 0 | Some x \<Rightarrow> x)"

definition calculateProjectAnalytics :: "Task list \<Rightarrow> ProjectAnalytics" where
  "calculateProjectAnalytics tasks =
     (let totalTasks = length tasks;
          completedTasks = length (filter (\<lambda>t. status t = DONE) tasks);
          inProgressTasks = length (filter (\<lambda>t. status t = IN_PROGRESS) tasks);
          blockedTasks = length (filter (\<lambda>t. status t = BLOCKED) tasks);
          completionRate =
            (if totalTasks > 0 then (real completedTasks / real totalTasks) * 100 else 0);
          totalEstimatedHours =
            foldl (\<lambda>sum task. sum + safeToNumber (estimatedHours task)) 0 tasks;
          totalActualHours =
            foldl (\<lambda>sum task. sum + safeToNumber (actualHours task)) 0 tasks;
          completedTasksWithHours =
            filter (\<lambda>t. status t = DONE \<and> actualHours t \<noteq> None \<and> actualHours t \<noteq> Some 0
                         \<and> completedAt t \<noteq> None) tasks;
          averageTaskDuration =
            (if length completedTasksWithHours > 0
             then foldl (\<lambda>sum task. sum + safeToNumber (actualHours task)) 0 completedTasksWithHours
                    / real (length completedTasksWithHours)
             else 0);
          efficiencyRatio =
            (if totalEstimatedHours > 0 \<and> totalActualHours > 0
             then (totalEstimatedHours / totalActualHours) * 100 else 0)
      in \<lparr>totalTasks = totalTasks, completedTasks = completedTasks,
          inProgressTasks = inProgressTasks, blockedTasks = blockedTasks,
          completionRate = completionRate, averageTaskDuration = averageTaskDuration,
          totalEstimatedHours = totalEstimatedHours, totalActualHours = totalActualHours,
          efficiencyRatio = efficiencyRatio\<rparr>)"

text \<open>Scenario D of the specification: the five tasks of the unit test.\<close>

definition hoursTask :: "TaskStatus \<Rightarrow> real \<Rightarrow> real option \<Rightarrow> Task" where
  "hoursTask st est act =
     \<lparr>task_id = ''t'', projectId = ''p'', status = st, priority = MEDIUM, dependencies = None,
      estimatedHours = Some est, actualHours = act, createdAt = 0,
      completedAt = (if st = DONE then Some 1 else None)\<rparr>"

definition scenarioD :: "Task list" where
  "scenarioD =
     [hoursTask DONE 4 (Some 5), hoursTask DONE 2 (Some 1.5), hoursTask IN_PROGRESS 8 None,
      hoursTask TODO 3 None, hoursTask BLOCKED 6 None]"

section \<open>buildTaskDependencyGraph\<close>

text \<open>
  A node of the graph; \<open>node_task\<close> and \<open>node_dependencies\<close> are the fields \<open>task\<close> and
  \<open>dependencies\<close>.
\<close>

record GraphNode =
  node_task :: Task
  node_dependencies :: "string list"
  dependents :: "string list"
  level :: nat

text \<open>
  The graph is a plain object, created by \<open>{}\<close>, with task ids as keys. Reading
  \<open>graph[key]\<close> looks at the own properties first and then along the prototype chain,
  and the key \<open>__proto__\<close> stands for the prototype itself. So the model keeps the own
  properties, an association list in the order of their creation, and the prototype when an
  assignment to \<open>graph['__proto__']\<close> has replaced it by a node (\<open>None\<close> while it is
  still \<open>Object.prototype\<close>).

  What a read can give: a node; the task of the node that is the prototype (key
  \<open>task\<close>); some other object that is neither, which has no property
  \<open>dependencies\<close> or \<open>dependents\<close> (a function of \<open>Object.prototype\<close>,
  \<open>Object.prototype\<close> itself, an array of the node that is the prototype); the number
  \<open>level\<close> of the node that is the prototype; or undefined.
\<close>

datatype jsval = VNode GraphNode | VTask Task | VOther | VLevel nat | VUndefined

record TaskDependencyGraph =
  own_nodes :: "(string \<times> GraphNode) list"
  proto_node :: "GraphNode option"

text \<open>The names of the properties of \<open>Object.prototype\<close>, apart from \<open>__proto__\<close>.\<close>

definition object_prototype_names :: "string list" where
  "object_prototype_names =
     [''constructor'', ''__defineGetter__'', ''__defineSetter__'', ''hasOwnProperty'',
      ''__lookupGetter__'', ''__lookupSetter__'', ''isPrototypeOf'', ''propertyIsEnumerable'',
      ''toString'', ''valueOf'', ''toLocaleString'']"

definition inherited :: "string \<Rightarrow> jsval" where
  "inherited key = (if key \<in> set object_prototype_names then VOther else VUndefined)"

text \<open>\<open>graph[key]\<close>, read.\<close>

definition js_get :: "TaskDependencyGraph \<Rightarrow> string \<Rightarrow> jsval" where
  "js_get graph key =
     (if key = ''__proto__''
      then (case proto_node graph of None \<Rightarrow> VOther | Some p \<Rightarrow> VNode p)
      else
        (case map_of (own_nodes graph) key of
           Some node \<Rightarrow> VNode node
         | None \<Rightarrow>
             (case proto_node graph of
                None \<Rightarrow> inherited key
              | Some p \<Rightarrow>
                  if key = ''task'' then VTask (node_task p)
                  else if key = ''dependencies'' \<or> key = ''dependents'' then VOther
                  else if key = ''level'' then VLevel (level p)
                  else inherited key)))"

text \<open>The truth value of what was read: undefined and the number 0 are false.\<close>

definition js_truthy :: "jsval \<Rightarrow> bool" where
  "js_truthy v = (case v of VUndefined \<Rightarrow> False | VLevel n \<Rightarrow> n \<noteq> 0 | _ \<Rightarrow> True)"

text \<open>
  \<open>graph[key] = node\<close>: the key \<open>__proto__\<close> sets the prototype; any other key gets
  an own property, replaced when there is one and added otherwise. The same function writes
  back a node that was read under \<open>key\<close> and changed in place: the node is the prototype
  when the key is \<open>__proto__\<close> and an own property otherwise.
\<close>

definition put_node :: "string \<Rightarrow> GraphNode \<Rightarrow> TaskDependencyGraph \<Rightarrow> TaskDependencyGraph" where
  "put_node key node graph =
     (if key = ''__proto__'' then graph\<lparr>proto_node := Some node\<rparr>
      else graph\<lparr>own_nodes := AList.update key node (own_nodes graph)\<rparr>)"

definition newNode :: "Task \<Rightarrow> GraphNode" where
  "newNode task = \<lparr>node_task = task, node_dependencies = deps_or_empty task,
                   dependents = [], level = 0\<rparr>"

text \<open>The first loop.\<close>

definition initNodes :: "Task list \<Rightarrow> TaskDependencyGraph" where
  "initNodes tasks =
     fold (\<lambda>task graph. put_node (task_id task) (newNode task) graph) tasks
       \<lparr>own_nodes = [], proto_node = None\<rparr>"

text \<open>
  \<open>if (graph[depId]) graph[depId].dependents.push(task.id)\<close>: a value that is true and
  is no node has no \<open>dependents\<close>, and the call of \<open>push\<close> on undefined is a type
  error.
\<close>

definition addDependent :: "string \<Rightarrow> string \<Rightarrow> TaskDependencyGraph \<Rightarrow> js_error + TaskDependencyGraph" where
  "addDependent taskId depId graph =
     (case js_get graph depId of
        VNode node \<Rightarrow> Inr (put_node depId (node\<lparr>dependents := dependents node @ [taskId]\<rparr>) graph)
      | VTask t \<Rightarrow> Inl TypeError
      | VOther \<Rightarrow> Inl TypeError
      | VLevel n \<Rightarrow> if n = 0 then Inr graph else Inl TypeError
      | VUndefined \<Rightarrow> Inr graph)"

text \<open>The second loop: the inner loop over the dependencies of one task, and the outer one.\<close>

fun link_task :: "string \<Rightarrow> string list \<Rightarrow> TaskDependencyGraph \<Rightarrow> js_error + TaskDependencyGraph" where
  "link_task taskId [] graph = Inr graph"
| "link_task taskId (depId # rest) graph =
     (case addDependent taskId depId graph of
        Inl e \<Rightarrow> Inl e
      | Inr graph' \<Rightarrow> link_task taskId rest graph')"

fun linkDependents :: "Task list \<Rightarrow> TaskDependencyGraph \<Rightarrow> js_error + TaskDependencyGraph" where
  "linkDependents [] graph = Inr graph"
| "linkDependents (task # rest) graph =
     (case dependencies task of
        None \<Rightarrow> linkDependents rest graph
      | Some ds \<Rightarrow>
          (case link_task (task_id task) ds graph of
             Inl e \<Rightarrow> Inl e
           | Inr graph' \<Rightarrow> linkDependents rest graph'))"

text \<open>
  \<open>!node || node.dependencies.length === 0\<close>, up to the list that the loop runs over:
  \<open>None\<close> when \<open>node\<close> is false, the list \<open>node.dependencies\<close> when there is one,
  and a type error when \<open>node.dependencies\<close> is undefined.
\<close>

definition read_dependencies :: "jsval \<Rightarrow> js_error + string list option" where
  "read_dependencies node =
     (case node of
        VUndefined \<Rightarrow> Inr None
      | VLevel n \<Rightarrow> if n = 0 then Inr None else Inl TypeError
      | VOther \<Rightarrow> Inl TypeError
      | VTask t \<Rightarrow> (case dependencies t of None \<Rightarrow> Inl TypeError | Some ds \<Rightarrow> Inr (Some ds))
      | VNode n \<Rightarrow> Inr (Some (node_dependencies n)))"

text \<open>The keys under which a read can give something: they bound the recursion.\<close>

definition truthy_keys :: "TaskDependencyGraph \<Rightarrow> string set" where
  "truthy_keys graph =
     fst ` set (own_nodes graph) \<union>
     set (''__proto__'' # ''task'' # ''dependencies'' # ''dependents'' # ''level'' # object_prototype_names)"

lemma finite_truthy_keys: "finite (truthy_keys graph)"
  by (simp add: truthy_keys_def)

lemma map_of_key: "map_of xs k = Some v \<Longrightarrow> k \<in> fst ` set xs"
  by (metis map_of_eq_None_iff option.distinct(1))

lemma defined_in_truthy_keys:
  "js_get graph key \<noteq> VUndefined \<Longrightarrow> key \<in> truthy_keys graph"
  by (auto simp: js_get_def truthy_keys_def inherited_def
      split: if_splits option.splits dest: map_of_key)

lemma dependencies_in_truthy_keys:
  "read_dependencies (js_get graph key) = Inr (Some ds) \<Longrightarrow> key \<in> truthy_keys graph"
  by (rule defined_in_truthy_keys) (auto simp: read_dependencies_def)

text \<open>
  \<open>calculateLevel\<close> with its \<open>for\<close> loop as \<open>level_loop\<close>: \<open>seen\<close> is the parameter
  \<open>visited\<close>. Each recursive call gets a copy of the set taken after the node was
  added, so the set holds the ancestors of the node on the current path.
\<close>

function calculateLevel :: "TaskDependencyGraph \<Rightarrow> string \<Rightarrow> string set \<Rightarrow> js_error + nat"
  and level_loop :: "TaskDependencyGraph \<Rightarrow> string set \<Rightarrow> string list \<Rightarrow> nat \<Rightarrow> js_error + nat"
where
  "calculateLevel graph taskId seen =
     (if taskId \<in> seen then Inr 0
      else
        (case read_dependencies (js_get graph taskId) of
           Inl e \<Rightarrow> Inl e
         | Inr None \<Rightarrow> Inr 0
         | Inr (Some ds) \<Rightarrow>
             if ds = [] then Inr 0
             else level_loop graph (insert taskId seen) ds 0))"
| "level_loop graph seen [] maxLevel = Inr maxLevel"
| "level_loop graph seen (depId # rest) maxLevel =
     (if js_truthy (js_get graph depId)
      then (case calculateLevel graph depId seen of
              Inl e \<Rightarrow> Inl e
            | Inr depLevel \<Rightarrow> level_loop graph seen rest (max maxLevel (depLevel + 1)))
      else level_loop graph seen rest maxLevel)"
  by pat_completeness auto

definition level_measure ::
  "TaskDependencyGraph \<times> string \<times> string set + TaskDependencyGraph \<times> string set \<times> string list \<times> nat
     \<Rightarrow> nat \<times> nat \<times> nat" where
  "level_measure x =
     (case x of
        Inl (graph, taskId, seen) \<Rightarrow> (card (truthy_keys graph - seen), 0, 0)
      | Inr (graph, seen, ds, maxLevel) \<Rightarrow> (card (truthy_keys graph - seen), 1, length ds))"

termination calculateLevel
proof (relation "inv_image (less_than <*lex*> less_than <*lex*> less_than) level_measure", goal_cases)
  case 1
  then show ?case by (intro wf_inv_image wf_lex_prod wf_less_than)
next
  case (2 graph taskId seen x2 x2a)
  from 2(2,3) have "taskId \<in> truthy_keys graph"
    by (intro dependencies_in_truthy_keys [of graph taskId x2a]) simp
  with 2(1) have "truthy_keys graph - insert taskId seen \<subset> truthy_keys graph - seen" by auto
  then have "card (truthy_keys graph - insert taskId seen) < card (truthy_keys graph - seen)"
    by (intro psubset_card_mono) (simp_all add: finite_truthy_keys)
  then show ?case by (simp add: level_measure_def)
next
  case 3
  then show ?case by (simp add: level_measure_def)
next
  case 4
  then show ?case by (simp add: level_measure_def)
next
  case 5
  then show ?case by (simp add: level_measure_def)
qed

declare calculateLevel.simps [simp del]

text \<open>
  The last loop: \<open>graph[taskId].level = calculateLevel(taskId, new Set())\<close> for the keys
  of \<open>Object.keys(graph)\<close>, the own properties. Under an own key the graph holds a node,
  whose level the assignment sets. \<open>Object.keys\<close> lists keys that are array indices
  first; the model takes the keys in the order of their creation, which gives the same
  graph, since a step writes the level of its own key only and \<open>calculateLevel\<close> reads
  the level of no own node.
\<close>

fun assign_levels :: "string list \<Rightarrow> TaskDependencyGraph \<Rightarrow> js_error + TaskDependencyGraph" where
  "assign_levels [] graph = Inr graph"
| "assign_levels (taskId # rest) graph =
     (case calculateLevel graph taskId {} of
        Inl e \<Rightarrow> Inl e
      | Inr l \<Rightarrow>
          assign_levels rest
            (graph\<lparr>own_nodes := AList.map_entry taskId (\<lambda>node. node\<lparr>level := l\<rparr>) (own_nodes graph)\<rparr>))"

definition assignLevels :: "TaskDependencyGraph \<Rightarrow> js_error + TaskDependencyGraph" where
  "assignLevels graph = assign_levels (map fst (own_nodes graph)) graph"

definition buildTaskDependencyGraph :: "Task list \<Rightarrow> js_error + TaskDependencyGraph" where
  "buildTaskDependencyGraph tasks =
     (case linkDependents tasks (initNodes tasks) of
        Inl e \<Rightarrow> Inl e
      | Inr graph \<Rightarrow> assignLevels graph)"

subsection \<open>Notions for the statements about levels\<close>

text \<open>
  The level that the returned graph records under a task id, and the edges of a collection.
\<close>

definition levelOf :: "Task list \<Rightarrow> string \<Rightarrow> nat option" where
  "levelOf tasks taskId =
     (case buildTaskDependencyGraph tasks of
        Inl e \<Rightarrow> None
      | Inr graph \<Rightarrow> (case js_get graph taskId of VNode n \<Rightarrow> Some (level n) | _ \<Rightarrow> None))"

definition task_edges :: "Task list \<Rightarrow> (string \<times> string) set" where
  "task_edges tasks = {(task_id t, d) | t d. t \<in> set tasks \<and> d \<in> set (deps_or_empty t)}"

text \<open>
  Task ids are the UUIDs of the database. What the statements need of them is less: no task
  has the id \<open>__proto__\<close>, and a dependency id that is no task id of the collection is
  not the name of a property that every object inherits.
\<close>

definition plain_ids :: "Task list \<Rightarrow> bool" where
  "plain_ids tasks \<longleftrightarrow>
     ''__proto__'' \<notin> task_id ` set tasks \<and>
     (\<forall>t \<in> set tasks. \<forall>d \<in> set (deps_or_empty t).
        d \<in> task_id ` set tasks \<or> (d \<noteq> ''__proto__'' \<and> d \<notin> set object_prototype_names))"

text \<open>
  For the proofs: the edges of a list of nodes, the relation between two lists that have
  the same keys with the same dependency lists, the part of a node that the first two
  loops fix, and the lists that hold the nodes of a collection.
\<close>

definition graph_edges :: "(string \<times> GraphNode) list \<Rightarrow> (string \<times> string) set" where
  "graph_edges g = {(a, b). \<exists>n. map_of g a = Some n \<and> b \<in> set (node_dependencies n)}"

definition same_deps :: "(string \<times> GraphNode) list \<Rightarrow> (string \<times> GraphNode) list \<Rightarrow> bool" where
  "same_deps g g' \<longleftrightarrow>
     (\<forall>k. map_option node_dependencies (map_of g k) = map_option node_dependencies (map_of g' k))"

definition core :: "GraphNode \<Rightarrow> Task \<times> string list" where
  "core n = (node_task n, node_dependencies n)"

definition same_cores :: "TaskDependencyGraph \<Rightarrow> TaskDependencyGraph \<Rightarrow> bool" where
  "same_cores g' g \<longleftrightarrow>
     proto_node g' = proto_node g \<and>
     (\<forall>k. map_option core (map_of (own_nodes g') k) = map_option core (map_of (own_nodes g) k))"

definition nodes_of :: "Task list \<Rightarrow> (string \<times> GraphNode) list \<Rightarrow> bool" where
  "nodes_of tasks nodes \<longleftrightarrow>
     (\<forall>k. map_option core (map_of nodes k)
          = (case filter (\<lambda>u. task_id u = k) tasks of
               [] \<Rightarrow> None
             | ts \<Rightarrow> Some (last ts, deps_or_empty (last ts))))"

text \<open>
  A key that is read like the key of a map: it is not \<open>__proto__\<close>, and when no own
  property has it the read gives undefined. In a plain graph the dependency ids of all nodes
  are such keys.
\<close>

definition plain_key :: "TaskDependencyGraph \<Rightarrow> string \<Rightarrow> bool" where
  "plain_key graph key \<longleftrightarrow>
     key \<noteq> ''__proto__'' \<and> (map_of (own_nodes graph) key = None \<longrightarrow> js_get graph key = VUndefined)"

definition plain_graph :: "TaskDependencyGraph \<Rightarrow> bool" where
  "plain_graph graph \<longleftrightarrow>
     (\<forall>k n. map_of (own_nodes graph) k = Some n \<longrightarrow> (\<forall>d \<in> set (node_dependencies n). plain_key graph d))"

text \<open>
  The number that \<open>calculateLevel\<close> returns on a plain graph, as a function of the own
  nodes alone; the proofs about levels go through it.
\<close>

function level_in :: "(string \<times> GraphNode) list \<Rightarrow> string \<Rightarrow> string set \<Rightarrow> nat" where
  "level_in nodes taskId seen =
     (if taskId \<in> seen then 0
      else
        (case map_of nodes taskId of
           None \<Rightarrow> 0
         | Some node \<Rightarrow>
             if node_dependencies node = [] then 0
             else
               fold (\<lambda>depId maxLevel.
                       if map_of nodes depId \<noteq> None
                       then max maxLevel (level_in nodes depId (insert taskId seen) + 1)
                       else maxLevel)
                    (node_dependencies node) 0))"
  by pat_completeness auto

termination level_in
proof (relation "measure (\<lambda>(nodes, taskId, seen). card (fst ` set nodes - seen))", goal_cases)
  case 1
  then show ?case by simp
next
  case (2 nodes taskId seen node depId maxLevel)
  from 2(2) have "taskId \<in> fst ` set nodes" by (rule map_of_key)
  with 2(1) have "fst ` set nodes - insert taskId seen \<subset> fst ` set nodes - seen"
    by auto
  then have "card (fst ` set nodes - insert taskId seen) < card (fst ` set nodes - seen)"
    by (intro psubset_card_mono) simp_all
  then show ?case by simp
qed

declare level_in.simps [simp del]

subsection \<open>A sample collection\<close>

text \<open>A chain of three tasks: \<open>a\<close> depends on \<open>b\<close> and \<open>c\<close>, \<open>b\<close> on \<open>c\<close>.\<close>

definition chain3 :: "Task list" where
  "chain3 =
     [\<lparr>task_id = ''a'', projectId = ''p'', status = TODO, priority = MEDIUM,
       dependencies = Some [''b'', ''c''], estimatedHours = None, actualHours = None,
       createdAt = 0, completedAt = None\<rparr>,
      \<lparr>task_id = ''b'', projectId = ''p'', status = TODO, priority = MEDIUM,
       dependencies = Some [''c''], estimatedHours = None, actualHours = None,
       createdAt = 1, completedAt = None\<rparr>,
      \<lparr>task_id = ''c'', projectId = ''p'', status = TODO, priority = MEDIUM,
       dependencies = None, estimatedHours = None, actualHours = None,
       createdAt = 2, completedAt = None\<rparr>]"

section \<open>JSON values and JSON.parse\<close>

text \<open>
  The values that \<open>JSON.parse\<close> returns. Numbers are taken as exact reals. An object
  keeps its members in the order of the text; a later member with the same key wins.
\<close>

datatype json =
    JNull
  | JBool bool
  | JNum real
  | JStr string
  | JArr "json list"
  | JObj "(string \<times> json) list"

definition is_json_ws :: "char \<Rightarrow> bool" where
  "is_json_ws c = (of_char c \<in> {32, 9, 10, 13 :: nat})"

definition skip_ws :: "string \<Rightarrow> string" where
  "skip_ws s = dropWhile is_json_ws s"

definition is_digit :: "char \<Rightarrow> bool" where
  "is_digit c = (48 \<le> (of_char c :: nat) \<and> (of_char c :: nat) \<le> 57)"

definition digits_val :: "string \<Rightarrow> nat" where
  "digits_val ds = foldl (\<lambda>a c. 10 * a + (of_char c - 48)) 0 ds"

definition hex_val :: "char \<Rightarrow> nat option" where
  "hex_val c =
     (let n = (of_char c :: nat)
      in if 48 \<le> n \<and> n \<le> 57 then Some (n - 48)
         else if 97 \<le> n \<and> n \<le> 102 then Some (n - 87)
         else if 65 \<le> n \<and> n \<le> 70 then Some (n - 55)
         else None)"

text \<open>The single-character escapes: quote, backslash, slash, b, f, n, r, t.\<close>

definition unescape :: "char \<Rightarrow> char option" where
  "unescape e =
     (if e = CHR 0x22 then Some (CHR 0x22)
      else if e = CHR 0x5C then Some (CHR 0x5C)
      else if e = CHR ''/'' then Some (CHR ''/'')
      else if e = CHR ''b'' then Some (CHR 0x08)
      else if e = CHR ''f'' then Some (CHR 0x0C)
      else if e = CHR ''n'' then Some (CHR 0x0A)
      else if e = CHR ''r'' then Some (CHR 0x0D)
      else if e = CHR ''t'' then Some (CHR 0x09)
      else None)"

text \<open>
  The characters of a string after its opening quote, up to the closing quote. An escape
  \<open>\uXXXX\<close> gives the code unit \<open>XXXX\<close>, kept below 256 in this model of strings.
\<close>

fun parse_string_body :: "string \<Rightarrow> (string \<times> string) option" where
  "parse_string_body [] = None"
| "parse_string_body (c # cs) =
     (if c = CHR 0x22 then Some ([], cs)
      else if c = CHR 0x5C then
        (case cs of
           [] \<Rightarrow> None
         | e # r \<Rightarrow>
             if e = CHR ''u'' then
               (case r of
                  h1 # h2 # h3 # h4 # r' \<Rightarrow>
                    (case (hex_val h1, hex_val h2, hex_val h3, hex_val h4) of
                       (Some a, Some b, Some c', Some d) \<Rightarrow>
                         map_option (\<lambda>(s, rest). (char_of (((a * 16 + b) * 16 + c') * 16 + d) # s, rest))
                           (parse_string_body r')
                     | _ \<Rightarrow> None)
                | _ \<Rightarrow> None)
             else
               (case unescape e of
                  None \<Rightarrow> None
                | Some ch \<Rightarrow> map_option (\<lambda>(s, rest). (ch # s, rest)) (parse_string_body r)))
      else if (of_char c :: nat) < 32 then None
      else map_option (\<lambda>(s, rest). (c # s, rest)) (parse_string_body cs))"

text \<open>
  A number: an optional minus, an integer part without a leading zero, an optional
  fraction, an optional exponent. \<open>parse_frac\<close> and \<open>parse_exp\<close> read the optional
  parts and give their digits.
\<close>

definition parse_frac :: "string \<Rightarrow> (string \<times> string) option" where
  "parse_frac s =
     (case s of
        [] \<Rightarrow> Some ([], s)
      | c # r \<Rightarrow>
          if c = CHR ''.'' then
            (if takeWhile is_digit r = [] then None
             else Some (takeWhile is_digit r, dropWhile is_digit r))
          else Some ([], s))"

definition parse_exp :: "string \<Rightarrow> (bool \<times> string \<times> string) option" where
  "parse_exp s =
     (case s of
        [] \<Rightarrow> Some (False, [], s)
      | c # r \<Rightarrow>
          if c = CHR ''e'' \<or> c = CHR ''E'' then
            (let (eneg, r') =
                   (case r of
                      [] \<Rightarrow> (False, r)
                    | sg # x \<Rightarrow> if sg = CHR ''-'' then (True, x)
                               else if sg = CHR ''+'' then (False, x)
                               else (False, r))
             in if takeWhile is_digit r' = [] then None
                else Some (eneg, takeWhile is_digit r', dropWhile is_digit r'))
          else Some (False, [], s))"

definition parse_number :: "string \<Rightarrow> (real \<times> string) option" where
  "parse_number cs =
     (let (neg, r0) = (case cs of
                         [] \<Rightarrow> (False, cs)
                       | c # r \<Rightarrow> if c = CHR ''-'' then (True, r) else (False, cs));
          ds = takeWhile is_digit r0
      in if ds = [] \<or> (length ds > 1 \<and> hd ds = CHR ''0'') then None
         else
           (case parse_frac (dropWhile is_digit r0) of
              None \<Rightarrow> None
            | Some (fs, r2) \<Rightarrow>
                (case parse_exp r2 of
                   None \<Rightarrow> None
                 | Some (eneg, es, r3) \<Rightarrow>
                     (let m = real (digits_val ds) + real (digits_val fs) / 10 ^ length fs;
                          v = (if eneg then m / 10 ^ digits_val es else m * 10 ^ digits_val es)
                      in Some (if neg then - v else v, r3)))))"

text \<open>
  Values, the elements of an array after its opening bracket, and the members of an object
  after its opening brace. The first argument bounds the depth of the descent; a text of
  \<open>n\<close> characters needs less than \<open>2 * n + 2\<close>.
\<close>

fun parse_value :: "nat \<Rightarrow> string \<Rightarrow> (json \<times> string) option"
  and parse_elements :: "nat \<Rightarrow> string \<Rightarrow> (json list \<times> string) option"
  and parse_members :: "nat \<Rightarrow> string \<Rightarrow> ((string \<times> json) list \<times> string) option"
where
  "parse_value 0 cs = None"
| "parse_value (Suc n) [] = None"
| "parse_value (Suc n) (c # r) =
     (if c = CHR ''['' then
        (case skip_ws r of
           [] \<Rightarrow> None
         | d # r' \<Rightarrow>
             if d = CHR '']'' then Some (JArr [], r')
             else map_option (\<lambda>(vs, rest). (JArr vs, rest)) (parse_elements n (d # r')))
      else if c = CHR ''{'' then
        (case skip_ws r of
           [] \<Rightarrow> None
         | d # r' \<Rightarrow>
             if d = CHR ''}'' then Some (JObj [], r')
             else map_option (\<lambda>(ms, rest). (JObj ms, rest)) (parse_members n (d # r')))
      else if c = CHR 0x22 then
        map_option (\<lambda>(s, rest). (JStr s, rest)) (parse_string_body r)
      else if c = CHR ''-'' \<or> is_digit c then
        map_option (\<lambda>(x, rest). (JNum x, rest)) (parse_number (c # r))
      else if prefix ''true'' (c # r) then Some (JBool True, drop 4 (c # r))
      else if prefix ''false'' (c # r) then Some (JBool False, drop 5 (c # r))
      else if prefix ''null'' (c # r) then Some (JNull, drop 4 (c # r))
      else None)"
| "parse_elements 0 cs = None"
| "parse_elements (Suc n) cs =
     (case parse_value n (skip_ws cs) of
        None \<Rightarrow> None
      | Some (v, rest) \<Rightarrow>
          (case skip_ws rest of
             [] \<Rightarrow> None
           | d # r \<Rightarrow>
               if d = CHR '','' then map_option (\<lambda>(vs, r'). (v # vs, r')) (parse_elements n r)
               else if d = CHR '']'' then Some ([v], r)
               else None))"
| "parse_members 0 cs = None"
| "parse_members (Suc n) cs =
     (case skip_ws cs of
        [] \<Rightarrow> None
      | q # r \<Rightarrow>
          if q \<noteq> CHR 0x22 then None
          else
            (case parse_string_body r of
               None \<Rightarrow> None
             | Some (k, rest) \<Rightarrow>
                 (case skip_ws rest of
                    [] \<Rightarrow> None
                  | col # r2 \<Rightarrow>
                      if col \<noteq> CHR '':'' then None
                      else
                        (case parse_value n (skip_ws r2) of
                           None \<Rightarrow> None
                         | Some (v, rest2) \<Rightarrow>
                             (case skip_ws rest2 of
                                [] \<Rightarrow> None
                              | d # r3 \<Rightarrow>
                                  if d = CHR '','' then
                                    map_option (\<lambda>(ms, r'). ((k, v) # ms, r')) (parse_members n r3)
                                  else if d = CHR ''}'' then Some ([(k, v)], r3)
                                  else None)))))"

text \<open>
  \<open>JSON.parse\<close>: one value with white space around it and nothing else. The bound on
  the descent is taken from the length of the text.
\<close>

definition JSON_parse_with :: "nat \<Rightarrow> string \<Rightarrow> json option" where
  "JSON_parse_with k text =
     (case parse_value k (skip_ws text) of
        None \<Rightarrow> None
      | Some (v, rest) \<Rightarrow> if skip_ws rest = [] then Some v else None)"

definition JSON_parse :: "string \<Rightarrow> json option" where
  "JSON_parse text = JSON_parse_with (2 * length text + 2) text"

section \<open>PRPParser: generating tasks\<close>

record TaskGenerationConfig =
  maxTasks :: int
  includeMilestones :: bool
  defaultPriority :: TaskPriority
  estimateHours :: bool
  generateDependencies :: bool

text \<open>
  A generated task. The fields are those of \<open>AITask\<close> with the prefix \<open>ai_\<close>. The
  description is whatever value the normalisation stores: it copies a truthy
  \<open>task.description\<close> of any type.
\<close>

record AITask =
  ai_title :: string
  ai_description :: json
  ai_priority :: TaskPriority
  ai_estimatedHours :: "real option"
  ai_dependencies :: "string list option"

subsection \<open>validateAndNormalizeTasks\<close>

text \<open>\<open>xs.slice(0, end)\<close>: a negative end counts from the end of the array.\<close>

definition slice0 :: "int \<Rightarrow> 'a list \<Rightarrow> 'a list" where
  "slice0 end xs =
     (let len = int (length xs);
          final = (if end < 0 then max (len + end) 0 else min end len)
      in take (nat final) xs)"

text \<open>
  \<open>task.key\<close> for the keys that the normalisation reads: the member of an object (the
  last one with the key) and undefined, here \<open>None\<close>, on every other value. Reading a
  property of null is a type error.
\<close>

definition js_prop :: "json \<Rightarrow> string \<Rightarrow> json option" where
  "js_prop v key = (case v of JObj ms \<Rightarrow> map_of (rev ms) key | _ \<Rightarrow> None)"

definition get_prop :: "json \<Rightarrow> string \<Rightarrow> js_error + json option" where
  "get_prop v key = (case v of JNull \<Rightarrow> Inl TypeError | _ \<Rightarrow> Inr (js_prop v key))"

definition truthy :: "json \<Rightarrow> bool" where
  "truthy v =
     (case v of
        JNull \<Rightarrow> False
      | JBool b \<Rightarrow> b
      | JNum x \<Rightarrow> x \<noteq> 0
      | JStr s \<Rightarrow> s \<noteq> []
      | JArr _ \<Rightarrow> True
      | JObj _ \<Rightarrow> True)"

text \<open>\<open>a || b\<close> on a property that may be undefined.\<close>

definition js_or :: "json option \<Rightarrow> json \<Rightarrow> json" where
  "js_or a b = (case a of Some v \<Rightarrow> if truthy v then v else b | None \<Rightarrow> b)"

text \<open>The decimal digits of a number, for the template strings.\<close>

function show_nat :: "nat \<Rightarrow> string" where
  "show_nat n =
     (if n < 10 then [char_of (48 + n)]
      else show_nat (n div 10) @ [char_of (48 + n mod 10)])"
  by pat_completeness auto

termination show_nat
  by (relation "measure id") auto

declare show_nat.simps [simp del]

text \<open>\<open>Object.values(TaskPriority).includes(v)\<close>, with the priority that \<open>v\<close> names.\<close>

definition priority_of :: "json option \<Rightarrow> TaskPriority option" where
  "priority_of v =
     (case v of
        Some (JStr s) \<Rightarrow>
          if s = ''critical'' then Some CRITICAL
          else if s = ''high'' then Some HIGH
          else if s = ''medium'' then Some MEDIUM
          else if s = ''low'' then Some LOW
          else None
      | _ \<Rightarrow> None)"

text \<open>\<open>/^task-index-\d+$/\<close>\<close>

definition is_task_index :: "string \<Rightarrow> bool" where
  "is_task_index dep =
     (prefix ''task-index-'' dep \<and> drop 11 dep \<noteq> [] \<and> list_all is_digit (drop 11 dep))"

text \<open>
  \<open>task.title?.substring(0, 100)\<close>: undefined for a missing or null title, the first 100
  characters of a string, and a type error for any other value, which has no
  \<open>substring\<close> method.
\<close>

definition title_substring :: "json option \<Rightarrow> js_error + string option" where
  "title_substring t =
     (case t of
        None \<Rightarrow> Inr None
      | Some JNull \<Rightarrow> Inr None
      | Some (JStr s) \<Rightarrow> Inr (Some (substring0 100 s))
      | Some _ \<Rightarrow> Inl TypeError)"

definition normalizeTask :: "TaskGenerationConfig \<Rightarrow> nat \<Rightarrow> json \<Rightarrow> js_error + AITask" where
  "normalizeTask config index task =
     (case get_prop task ''title'' of
        Inl e \<Rightarrow> Inl e
      | Inr title \<Rightarrow>
          (case title_substring title of
             Inl e \<Rightarrow> Inl e
           | Inr sub \<Rightarrow>
               (let validatedTask =
                      \<lparr>ai_title =
                         (case sub of
                            Some s \<Rightarrow> if s \<noteq> [] then s
                                      else ''Generated Implementation Task '' @ show_nat (index + 1)
                          | None \<Rightarrow> ''Generated Implementation Task '' @ show_nat (index + 1)),
                       ai_description =
                         js_or (js_prop task ''description'')
                           (js_or title (JStr (''Implementation task '' @ show_nat (index + 1)))),
                       ai_priority =
                         (case priority_of (js_prop task ''priority'') of
                            Some p \<Rightarrow> p
                          | None \<Rightarrow> defaultPriority config),
                       ai_estimatedHours = None,
                       ai_dependencies = None\<rparr>;
                    withHours =
                      (case js_prop task ''estimatedHours'' of
                         Some (JNum x) \<Rightarrow>
                           if estimateHours config \<and> x \<noteq> 0
                           then validatedTask\<lparr>ai_estimatedHours := Some (max 0.5 (min 40 x))\<rparr>
                           else validatedTask
                       | _ \<Rightarrow> validatedTask);
                    withDeps =
                      (case js_prop task ''dependencies'' of
                         Some (JArr ds) \<Rightarrow>
                           if generateDependencies config
                           then withHours\<lparr>ai_dependencies :=
                                  Some (concat (map (\<lambda>dep. case dep of
                                                             JStr s \<Rightarrow> if is_task_index s then [s] else []
                                                           | _ \<Rightarrow> []) ds))\<rparr>
                           else withHours
                       | _ \<Rightarrow> withHours)
                in Inr withDeps)))"

text \<open>\<open>.map((task, index) => ...)\<close>: the first exception ends the whole call.\<close>

fun normalize_from :: "TaskGenerationConfig \<Rightarrow> nat \<Rightarrow> json list \<Rightarrow> js_error + AITask list" where
  "normalize_from config index [] = Inr []"
| "normalize_from config index (task # rest) =
     (case normalizeTask config index task of
        Inl e \<Rightarrow> Inl e
      | Inr t \<Rightarrow>
          (case normalize_from config (index + 1) rest of
             Inl e \<Rightarrow> Inl e
           | Inr ts \<Rightarrow> Inr (t # ts)))"

text \<open>
  \<open>aiTasks.slice(0, config.maxTasks).map(...)\<close>: only an array has both methods; on any
  other parsed value the call is a type error.
\<close>

definition validateAndNormalizeTasks :: "json \<Rightarrow> TaskGenerationConfig \<Rightarrow> js_error + AITask list" where
  "validateAndNormalizeTasks aiTasks config =
     (case aiTasks of
        JArr xs \<Rightarrow> normalize_from config 0 (slice0 (maxTasks config) xs)
      | _ \<Rightarrow> Inl TypeError)"

subsection \<open>parsePreviewPRP\<close>

definition has_keyword :: "string \<Rightarrow> bool" where
  "has_keyword line =
     (str_includes line ''implement'' \<or> str_includes line ''create'' \<or> str_includes line ''build'' \<or>
      str_includes line ''code'' \<or> str_includes line ''function'' \<or> str_includes line ''class'' \<or>
      str_includes line ''component'' \<or> str_includes line ''api'' \<or> str_includes line ''test'')"

text \<open>
  The task built from a line. \<open>r\<close> is the value that \<open>Math.random()\<close> returns when it
  is called, which is only when \<open>config.estimateHours\<close> is set.
\<close>

definition previewTask :: "TaskGenerationConfig \<Rightarrow> real \<Rightarrow> string \<Rightarrow> AITask" where
  "previewTask config r line =
     \<lparr>ai_title = trim (substring0 100 line),
      ai_description =
        JStr (trim line @ [CHR 0x0A, CHR 0x0A]
              @ ''Validation gates: Run tests and type checking after implementation.''),
      ai_priority =
        (if str_includes line ''critical'' \<or> str_includes line ''must'' then HIGH else MEDIUM),
      ai_estimatedHours =
        (if estimateHours config then Some (real_of_int (\<lfloor>r * 8\<rfloor> + 1)) else None),
      ai_dependencies = None\<rparr>"

text \<open>
  The loop over the lines. \<open>rnd\<close> lists the values of \<open>Math.random()\<close> by call: the
  task pushed at position \<open>i\<close> takes \<open>rnd i\<close>. The length test comes after the push.
\<close>

fun preview_loop ::
  "TaskGenerationConfig \<Rightarrow> (nat \<Rightarrow> real) \<Rightarrow> string list \<Rightarrow> AITask list \<Rightarrow> AITask list" where
  "preview_loop config rnd [] tasks = tasks"
| "preview_loop config rnd (line # rest) tasks =
     (if has_keyword line then
        (let tasks' = tasks @ [previewTask config (rnd (length tasks)) line]
         in if int (length tasks') \<ge> maxTasks config then tasks'
            else preview_loop config rnd rest tasks')
      else preview_loop config rnd rest tasks)"

definition parsePreviewPRP ::
  "(nat \<Rightarrow> real) \<Rightarrow> string \<Rightarrow> TaskGenerationConfig \<Rightarrow> AITask list" where
  "parsePreviewPRP rnd prpContent config =
     (let lines = filter (\<lambda>line. trim line \<noteq> []) (split_nl prpContent)
      in preview_loop config rnd lines [])"

subsection \<open>generateTasksFromPRP\<close>

text \<open>
  What the completion service gives back to one request. The first three are the ways in
  which the code before \<open>JSON.parse\<close> throws: \<open>fetch\<close> rejects, the response is not ok,
  or the body has no \<open>content[0].text\<close> to read. \<open>Payload\<close> carries the text that
  \<open>JSON.parse\<close> receives.
\<close>

datatype completion =
    NetworkFailure
  | HttpError nat
  | MalformedBody
  | Payload string

text \<open>The \<open>try\<close> block: the tasks, or the exception that reaches the \<open>catch\<close>.\<close>

definition tryGenerate :: "completion \<Rightarrow> TaskGenerationConfig \<Rightarrow> js_error + AITask list" where
  "tryGenerate reply config =
     (case reply of
        NetworkFailure \<Rightarrow> Inl TypeError
      | HttpError code \<Rightarrow> Inl ApiError
      | MalformedBody \<Rightarrow> Inl TypeError
      | Payload content \<Rightarrow>
          (case JSON_parse content of
             None \<Rightarrow> Inl SyntaxError
           | Some aiTasks \<Rightarrow> validateAndNormalizeTasks aiTasks config))"

definition generateTasksFromPRP ::
  "completion \<Rightarrow> (nat \<Rightarrow> real) \<Rightarrow> string \<Rightarrow> TaskGenerationConfig \<Rightarrow> AITask list" where
  "generateTasksFromPRP reply rnd prpContent config =
     (case tryGenerate reply config of
        Inr tasks \<Rightarrow> tasks
      | Inl error \<Rightarrow> parsePreviewPRP rnd prpContent config)"

subsection \<open>Failures and keywords in the words of the specification\<close>

text \<open>
  A failed request: the network fails, the response is not 2xx, or its body cannot be read.
  A reply whose payload does not parse as a JSON array. And the keywords of the fallback.
\<close>

definition service_failed :: "completion \<Rightarrow> bool" where
  "service_failed reply \<longleftrightarrow>
     reply = NetworkFailure \<or> (\<exists>code. reply = HttpError code) \<or> reply = MalformedBody"

definition no_array :: "completion \<Rightarrow> bool" where
  "no_array reply \<longleftrightarrow>
     (\<exists>content. reply = Payload content \<and> (\<forall>xs. JSON_parse content \<noteq> Some (JArr xs)))"

definition fallback_keywords :: "string list" where
  "fallback_keywords =
     [''implement'', ''create'', ''build'', ''code'', ''function'', ''class'', ''component'',
      ''api'', ''test'']"

subsection \<open>Sample configuration and tasks\<close>

text \<open>
  A configuration with the given limit and switch for estimates, the task that the fallback
  builds from the line \<open>implement login\<close>, and the task that the normalisation builds
  from an object with the title \<open>A\<close>.
\<close>

definition testConfig :: "int \<Rightarrow> bool \<Rightarrow> TaskGenerationConfig" where
  "testConfig m e =
     \<lparr>maxTasks = m, includeMilestones = True, defaultPriority = MEDIUM,
      estimateHours = e, generateDependencies = False\<rparr>"

definition loginTask :: "real option \<Rightarrow> AITask" where
  "loginTask h =
     \<lparr>ai_title = ''implement login'',
      ai_description =
        JStr (''implement login'' @ [CHR 0x0A, CHR 0x0A]
              @ ''Validation gates: Run tests and type checking after implementation.''),
      ai_priority = MEDIUM, ai_estimatedHours = h, ai_dependencies = None\<rparr>"

definition taskA :: AITask where
  "taskA = \<lparr>ai_title = ''A'', ai_description = JStr ''A'', ai_priority = MEDIUM,
            ai_estimatedHours = None, ai_dependencies = None\<rparr>"

subsection \<open>Texts that begin like a JSON value\<close>

text \<open>
  The first character can open an array, an object, a string or a number, or the text
  begins with one of the three literals.
\<close>

definition starts_json_value :: "string \<Rightarrow> bool" where
  "starts_json_value s =
     (case s of
        [] \<Rightarrow> False
      | c # r \<Rightarrow>
          c = CHR ''['' \<or> c = CHR ''{'' \<or> c = CHR 0x22 \<or> c = CHR ''-'' \<or> is_digit c \<or>
          prefix ''true'' s \<or> prefix ''false'' s \<or> prefix ''null'' s)"

chapter \<open>Properties\<close>

section \<open>Properties of sanitizePRPContent\<close>

subsection \<open>Facts about trimming\<close>

lemma set_trim_subset: "set (trim s) \<subseteq> set s"
proof -
  have d: "set (dropWhile P xs) \<subseteq> set xs" for P and xs :: string
    by (auto dest: set_dropWhileD)
  have "set (trim s) \<subseteq> set (dropWhile is_space s)"
    unfolding trim_def using d [of is_space "rev (dropWhile is_space s)"] by simp
  also have "\<dots> \<subseteq> set s"
    by (rule d)
  finally show ?thesis .
qed

lemma trim_hd_not_space:
  assumes "trim s \<noteq> []"
  shows "\<not> is_space (hd (trim s))"
proof -
  let ?t = "dropWhile is_space s"
  let ?r = "dropWhile is_space (rev ?t)"
  from assms have r: "?r \<noteq> []" by (simp add: trim_def)
  then have t: "?t \<noteq> []" by (metis dropWhile.simps(1) rev_is_Nil_conv)
  have "rev ?t = takeWhile is_space (rev ?t) @ ?r" by simp
  then have "?t = rev ?r @ rev (takeWhile is_space (rev ?t))"
    by (metis rev_append rev_rev_ident)
  moreover from r have "rev ?r \<noteq> []" by simp
  ultimately have "hd ?t = hd (rev ?r)"
    by (metis hd_append2)
  moreover from t have "\<not> is_space (hd ?t)" by (rule hd_dropWhile)
  ultimately show ?thesis by (simp add: trim_def)
qed

lemma trim_last_not_space:
  assumes "trim s \<noteq> []"
  shows "\<not> is_space (last (trim s))"
proof -
  let ?r = "dropWhile is_space (rev (dropWhile is_space s))"
  from assms have r: "?r \<noteq> []" by (simp add: trim_def)
  then have "\<not> is_space (hd ?r)" by (rule hd_dropWhile)
  with r show ?thesis by (simp add: trim_def last_rev)
qed

lemma trim_fixed:
  assumes "s = [] \<or> (\<not> is_space (hd s) \<and> \<not> is_space (last s))"
  shows "trim s = s"
proof (cases "s = []")
  case True
  then show ?thesis by (simp add: trim_def)
next
  case False
  with assms have h: "\<not> is_space (hd s)" and l: "\<not> is_space (last s)" by auto
  from False h have "dropWhile is_space s = s"
    by (simp add: dropWhile_eq_self_iff)
  moreover from False l have "dropWhile is_space (rev s) = rev s"
    by (simp add: dropWhile_eq_self_iff hd_rev)
  ultimately show ?thesis by (simp add: trim_def)
qed

lemma trim_idem: "trim (trim s) = trim s"
  using trim_fixed [of "trim s"] trim_hd_not_space [of s] trim_last_not_space [of s]
  by blast

lemma sanitize_chars:
  "c \<in> set (sanitizePRPContent x) \<Longrightarrow> c \<noteq> CHR ''<'' \<and> c \<noteq> CHR ''>'' \<and> c \<noteq> CHR 0x27"
proof -
  assume "c \<in> set (sanitizePRPContent x)"
  then have "c \<in> set (normalize_quotes (strip_angle x))"
    unfolding sanitizePRPContent_def using set_trim_subset by blast
  then show ?thesis
    by (auto simp: normalize_quotes_def strip_angle_def split: if_splits)
qed

subsection \<open>Sanitizing is idempotent\<close>

text \<open>
  Claim C9. For every input string \<open>x\<close>, sanitizing the sanitized string gives the
  sanitized string again: after one pass no angle bracket and no single quote is left,
  every quote is the double quote, and the string is trimmed, so the second pass removes
  nothing, rewrites nothing and trims nothing.
\<close>

theorem sanitize_idempotent:
  "sanitizePRPContent (sanitizePRPContent x) = sanitizePRPContent x"
proof -
  let ?y = "sanitizePRPContent x"
  have a: "strip_angle ?y = ?y"
    unfolding strip_angle_def using sanitize_chars [of _ x] by (simp add: filter_id_conv)
  have q: "normalize_quotes ?y = ?y"
    unfolding normalize_quotes_def using sanitize_chars [of _ x] by (intro map_idI) auto
  have "trim ?y = ?y"
    unfolding sanitizePRPContent_def by (rule trim_idem)
  with a q show ?thesis
    by (simp add: sanitizePRPContent_def [of ?y])
qed

theorem sanitize_idempotent_witness:
  "sanitizePRPContent (sanitizePRPContent ''  <b>Use 'x'</b> '') = ''bUse \"x\"/b''"
proof -
  have "sanitizePRPContent ''  <b>Use 'x'</b> '' = ''bUse \"x\"/b''"
    by (simp add: sanitizePRPContent_def trim_def normalize_quotes_def strip_angle_def is_space_def)
  then show ?thesis
    using sanitize_idempotent [of "''  <b>Use 'x'</b> ''"] by simp
qed

section \<open>Properties of validateTaskDependencies\<close>

subsection \<open>The traversal finds exactly the reachable cycles\<close>

lemma stack_restored:
  "hasCycle taskId deps allTasks c s = (False, s') \<Longrightarrow> recursionStack s' = recursionStack s"
  "hasCycle_loop taskId deps allTasks l s = (False, s') \<Longrightarrow> recursionStack s' = recursionStack s"
proof (induction taskId deps allTasks c s and taskId deps allTasks l s
       arbitrary: s' and s' rule: hasCycle_hasCycle_loop.induct)
  case (1 taskId deps allTasks c s)
  show ?case
  proof (cases "c \<in> recursionStack s \<or> c \<in> visited s")
    case True
    with 1(2) show ?thesis by (auto simp: hasCycle.simps [of _ _ _ c s] split: if_splits)
  next
    case False
    let ?s0 = "s\<lparr>visited := insert c (visited s), recursionStack := insert c (recursionStack s)\<rparr>"
    obtain b s1 where r: "hasCycle_loop taskId deps allTasks (currentDeps taskId deps allTasks c) ?s0 = (b, s1)"
      by (cases "hasCycle_loop taskId deps allTasks (currentDeps taskId deps allTasks c) ?s0")
    with False 1(2) have b: "\<not> b" and s': "s' = s1\<lparr>recursionStack := recursionStack s1 - {c}\<rparr>"
      by (auto simp: hasCycle.simps [of _ _ _ c s] split: if_splits)
    from False b r 1(1) [of s1] have "recursionStack s1 = insert c (recursionStack s)" by simp
    with s' False show ?thesis by auto
  qed
next
  case (2 taskId deps allTasks s)
  then show ?case by simp
next
  case (3 taskId deps allTasks depId rest s)
  obtain b s1 where r: "hasCycle taskId deps allTasks depId s = (b, s1)"
    by (cases "hasCycle taskId deps allTasks depId s")
  with 3(3) have b: "\<not> b" and l: "hasCycle_loop taskId deps allTasks rest s1 = (False, s')"
    by (auto split: if_splits bool.splits)
  from r b 3(1) [of s1] have "recursionStack s1 = recursionStack s" by simp
  moreover from r b l 3(2) [of b s1 s'] have "recursionStack s' = recursionStack s1" by simp
  ultimately show ?case by simp
qed

lemma hasCycle_sound:
  "hasCycle taskId deps allTasks c s = (True, s') \<Longrightarrow>
     (\<forall>x \<in> recursionStack s. (x, c) \<in> (dep_edges taskId deps allTasks)\<^sup>+) \<Longrightarrow>
     reaches_cycle (dep_edges taskId deps allTasks) c"
  "hasCycle_loop taskId deps allTasks l s = (True, s') \<Longrightarrow>
     (\<forall>x \<in> recursionStack s. \<forall>d \<in> set l. (x, d) \<in> (dep_edges taskId deps allTasks)\<^sup>+) \<Longrightarrow>
     (\<exists>d \<in> set l. reaches_cycle (dep_edges taskId deps allTasks) d)"
proof (induction taskId deps allTasks c s and taskId deps allTasks l s
       arbitrary: s' and s' rule: hasCycle_hasCycle_loop.induct)
  case (1 taskId deps allTasks c s)
  let ?E = "dep_edges taskId deps allTasks"
  show ?case
  proof (cases "c \<in> recursionStack s")
    case True
    with 1(3) have "(c, c) \<in> ?E\<^sup>+" by blast
    then show ?thesis unfolding reaches_cycle_def by blast
  next
    case False
    with 1(2) have nv: "c \<notin> visited s" by (auto simp: hasCycle.simps [of _ _ _ c s] split: if_splits)
    let ?s0 = "s\<lparr>visited := insert c (visited s), recursionStack := insert c (recursionStack s)\<rparr>"
    let ?l = "currentDeps taskId deps allTasks c"
    obtain b s1 where r: "hasCycle_loop taskId deps allTasks ?l ?s0 = (b, s1)"
      by (cases "hasCycle_loop taskId deps allTasks ?l ?s0")
    with False nv 1(2) have b: "b" by (auto simp: hasCycle.simps [of _ _ _ c s] split: if_splits)
    have e: "(c, d) \<in> ?E" if "d \<in> set ?l" for d
      using that by (simp add: dep_edges_def)
    have "\<forall>x \<in> recursionStack ?s0. \<forall>d \<in> set ?l. (x, d) \<in> ?E\<^sup>+"
    proof (intro ballI)
      fix x d assume x: "x \<in> recursionStack ?s0" and d: "d \<in> set ?l"
      show "(x, d) \<in> ?E\<^sup>+"
      proof (cases "x = c")
        case True
        with e [OF d] show ?thesis by blast
      next
        case False
        with x 1(3) have "(x, c) \<in> ?E\<^sup>+" by simp
        with e [OF d] show ?thesis by (meson trancl.trancl_into_trancl)
      qed
    qed
    with False nv r b 1(1) [of s1]
    obtain d where d: "d \<in> set ?l" and rc: "reaches_cycle ?E d" by auto
    from rc obtain v where "(d, v) \<in> ?E\<^sup>*" and v: "(v, v) \<in> ?E\<^sup>+"
      unfolding reaches_cycle_def by blast
    with e [OF d] have "(c, v) \<in> ?E\<^sup>*" by (meson converse_rtrancl_into_rtrancl)
    with v show ?thesis unfolding reaches_cycle_def by blast
  qed
next
  case (2 taskId deps allTasks s)
  then show ?case by simp
next
  case (3 taskId deps allTasks depId rest s)
  let ?E = "dep_edges taskId deps allTasks"
  obtain b s1 where r: "hasCycle taskId deps allTasks depId s = (b, s1)"
    by (cases "hasCycle taskId deps allTasks depId s")
  show ?case
  proof (cases b)
    case True
    with r 3(1) [of s1] 3(4) have "reaches_cycle ?E depId" by simp
    then show ?thesis by simp
  next
    case False
    with r 3(3) have l: "hasCycle_loop taskId deps allTasks rest s1 = (True, s')" by simp
    from r False have "recursionStack s1 = recursionStack s" by (simp add: stack_restored(1))
    with 3(4) have "\<forall>x \<in> recursionStack s1. \<forall>d \<in> set rest. (x, d) \<in> ?E\<^sup>+" by simp
    with r False l 3(2) [of b s1 s'] show ?thesis by auto
  qed
qed

lemma successors_clear:
  assumes "\<forall>d. (c, d) \<in> E \<longrightarrow> \<not> reaches_cycle E d"
  shows "\<not> reaches_cycle E c"
proof
  assume "reaches_cycle E c"
  then obtain v where cv: "(c, v) \<in> E\<^sup>*" and vv: "(v, v) \<in> E\<^sup>+"
    unfolding reaches_cycle_def by blast
  from cv show False
  proof (cases rule: converse_rtranclE)
    case base
    with vv obtain d where "(c, d) \<in> E" and "(d, c) \<in> E\<^sup>*"
      by (meson tranclD)
    with vv base have "(c, d) \<in> E" and "reaches_cycle E d"
      unfolding reaches_cycle_def by blast+
    with assms show False by blast
  next
    case (step d)
    with vv have "reaches_cycle E d" unfolding reaches_cycle_def by blast
    with step(1) assms show False by blast
  qed
qed

lemma hasCycle_complete:
  "hasCycle taskId deps allTasks c s = (False, s') \<Longrightarrow>
     (\<forall>b \<in> visited s - recursionStack s. \<not> reaches_cycle (dep_edges taskId deps allTasks) b) \<Longrightarrow>
     \<not> reaches_cycle (dep_edges taskId deps allTasks) c \<and>
     (\<forall>b \<in> visited s' - recursionStack s'. \<not> reaches_cycle (dep_edges taskId deps allTasks) b)"
  "hasCycle_loop taskId deps allTasks l s = (False, s') \<Longrightarrow>
     (\<forall>b \<in> visited s - recursionStack s. \<not> reaches_cycle (dep_edges taskId deps allTasks) b) \<Longrightarrow>
     (\<forall>d \<in> set l. \<not> reaches_cycle (dep_edges taskId deps allTasks) d) \<and>
     (\<forall>b \<in> visited s' - recursionStack s'. \<not> reaches_cycle (dep_edges taskId deps allTasks) b)"
proof (induction taskId deps allTasks c s and taskId deps allTasks l s
       arbitrary: s' and s' rule: hasCycle_hasCycle_loop.induct)
  case (1 taskId deps allTasks c s)
  let ?E = "dep_edges taskId deps allTasks"
  from 1(2) have ns: "c \<notin> recursionStack s" by (auto simp: hasCycle.simps [of _ _ _ c s] split: if_splits)
  show ?case
  proof (cases "c \<in> visited s")
    case True
    with ns 1(2) have "s' = s" by (simp add: hasCycle.simps [of _ _ _ c s])
    with True ns 1(3) show ?thesis by blast
  next
    case False
    let ?s0 = "s\<lparr>visited := insert c (visited s), recursionStack := insert c (recursionStack s)\<rparr>"
    let ?l = "currentDeps taskId deps allTasks c"
    obtain b s1 where r: "hasCycle_loop taskId deps allTasks ?l ?s0 = (b, s1)"
      by (cases "hasCycle_loop taskId deps allTasks ?l ?s0")
    with False ns 1(2) have b: "\<not> b" and s': "s' = s1\<lparr>recursionStack := recursionStack s1 - {c}\<rparr>"
      by (auto simp: hasCycle.simps [of _ _ _ c s] split: if_splits)
    from 1(3) have "\<forall>b \<in> visited ?s0 - recursionStack ?s0. \<not> reaches_cycle ?E b" by auto
    with False ns r b 1(1) [of s1]
    have ds: "\<forall>d \<in> set ?l. \<not> reaches_cycle ?E d"
      and bl: "\<forall>b \<in> visited s1 - recursionStack s1. \<not> reaches_cycle ?E b" by auto
    from ds have c: "\<not> reaches_cycle ?E c"
      by (intro successors_clear) (simp add: dep_edges_def)
    with bl s' show ?thesis by auto
  qed
next
  case (2 taskId deps allTasks s)
  then show ?case by simp
next
  case (3 taskId deps allTasks depId rest s)
  let ?E = "dep_edges taskId deps allTasks"
  obtain b s1 where r: "hasCycle taskId deps allTasks depId s = (b, s1)"
    by (cases "hasCycle taskId deps allTasks depId s")
  with 3(3) have b: "\<not> b" and l: "hasCycle_loop taskId deps allTasks rest s1 = (False, s')"
    by (auto split: if_splits)
  from r b 3(1) [of s1] 3(4)
  have d: "\<not> reaches_cycle ?E depId"
    and bl: "\<forall>b \<in> visited s1 - recursionStack s1. \<not> reaches_cycle ?E b" by auto
  from r b l bl 3(2) [of b s1 s']
  have "(\<forall>d \<in> set rest. \<not> reaches_cycle ?E d) \<and>
        (\<forall>b \<in> visited s' - recursionStack s'. \<not> reaches_cycle ?E b)" by simp
  with d show ?case by simp
qed

lemma hasCycle_iff_reaches_cycle:
  "fst (hasCycle taskId deps allTasks taskId \<lparr>visited = {}, recursionStack = {}\<rparr>)
     \<longleftrightarrow> reaches_cycle (dep_edges taskId deps allTasks) taskId"
proof -
  let ?s = "\<lparr>visited = {}, recursionStack = {}\<rparr>"
  obtain b s' where r: "hasCycle taskId deps allTasks taskId ?s = (b, s')"
    by (cases "hasCycle taskId deps allTasks taskId ?s")
  show ?thesis
  proof (cases b)
    case True
    with r hasCycle_sound(1) [of taskId deps allTasks taskId ?s s'] show ?thesis by simp
  next
    case False
    with r hasCycle_complete(1) [of taskId deps allTasks taskId ?s s'] show ?thesis by simp
  qed
qed

subsection \<open>The errors of the project check\<close>

lemma fold_checkDependency:
  "\<exists>more. fold (checkDependency p allTasks) deps errs = errs @ more \<and>
     (\<forall>m \<in> set more. \<exists>depId \<in> set deps. \<exists>tl. m = ''Dependency task '' @ depId @ tl) \<and>
     (\<forall>depId \<in> set deps.
        (find_task allTasks depId = None \<longrightarrow>
           ''Dependency task '' @ depId @ '' not found'' \<in> set more) \<and>
        (\<forall>d. find_task allTasks depId = Some d \<and> projectId d \<noteq> p \<longrightarrow>
           ''Dependency task '' @ depId @ '' is not in the same project'' \<in> set more))"
proof (induction deps arbitrary: errs)
  case Nil
  then show ?case by simp
next
  case (Cons a deps)
  let ?e = "checkDependency p allTasks a errs"
  define one where "one =
     (case find_task allTasks a of
        None \<Rightarrow> [''Dependency task '' @ a @ '' not found'']
      | Some d \<Rightarrow> if projectId d \<noteq> p
          then [''Dependency task '' @ a @ '' is not in the same project''] else [])"
  have one: "?e = errs @ one"
    and shape: "\<forall>m \<in> set one. \<exists>tl. m = ''Dependency task '' @ a @ tl"
    and nf: "find_task allTasks a = None \<longrightarrow> ''Dependency task '' @ a @ '' not found'' \<in> set one"
    and np: "\<forall>d. find_task allTasks a = Some d \<and> projectId d \<noteq> p \<longrightarrow>
               ''Dependency task '' @ a @ '' is not in the same project'' \<in> set one"
    by (auto simp: one_def checkDependency_def split: option.splits)
  from Cons.IH [of ?e] obtain more where
    m: "fold (checkDependency p allTasks) deps ?e = ?e @ more"
    and ms: "\<forall>m \<in> set more. \<exists>depId \<in> set deps. \<exists>tl. m = ''Dependency task '' @ depId @ tl"
    and mf: "\<forall>depId \<in> set deps.
        (find_task allTasks depId = None \<longrightarrow>
           ''Dependency task '' @ depId @ '' not found'' \<in> set more) \<and>
        (\<forall>d. find_task allTasks depId = Some d \<and> projectId d \<noteq> p \<longrightarrow>
           ''Dependency task '' @ depId @ '' is not in the same project'' \<in> set more)"
    by blast
  have "fold (checkDependency p allTasks) (a # deps) errs = errs @ (one @ more)"
    using one m by simp
  moreover have "\<forall>m \<in> set (one @ more). \<exists>depId \<in> set (a # deps). \<exists>tl. m = ''Dependency task '' @ depId @ tl"
    using shape ms by auto
  moreover have "\<forall>depId \<in> set (a # deps).
        (find_task allTasks depId = None \<longrightarrow>
           ''Dependency task '' @ depId @ '' not found'' \<in> set (one @ more)) \<and>
        (\<forall>d. find_task allTasks depId = Some d \<and> projectId d \<noteq> p \<longrightarrow>
           ''Dependency task '' @ depId @ '' is not in the same project'' \<in> set (one @ more))"
    using nf np mf by auto
  ultimately show ?case by blast
qed

lemma count_circular_fold:
  "count_list (fold (checkDependency p allTasks) deps errs) ''Circular dependency detected''
     = count_list errs ''Circular dependency detected''"
proof -
  obtain more where m: "fold (checkDependency p allTasks) deps errs = errs @ more"
    and ms: "\<forall>m \<in> set more. \<exists>depId \<in> set deps. \<exists>tl. m = ''Dependency task '' @ depId @ tl"
    using fold_checkDependency [of p allTasks deps errs] by blast
  from ms have "''Circular dependency detected'' \<notin> set more" by auto
  then have "count_list more ''Circular dependency detected'' = 0" by (simp add: count_list_0_iff)
  with m show ?thesis by simp
qed

lemma no_edge_no_cycle:
  assumes "currentDeps taskId [] allTasks taskId = []"
  shows "\<not> reaches_cycle (dep_edges taskId [] allTasks) taskId"
  by (rule successors_clear) (simp add: dep_edges_def assms)

subsection \<open>The graph of the proposal\<close>

text \<open>
  The lookup of the code finds the first task with the id, and the edges that the traversal
  follows are those of the graph of the proposal.
\<close>

lemma find_task_first: "find_task tasks x = Some t \<longleftrightarrow> first_with_id tasks x t"
  unfolding find_task_def first_with_id_def find_Some_iff by auto

lemma find_task_none: "find_task tasks x = None \<longleftrightarrow> (\<forall>t. \<not> first_with_id tasks x t)"
  by (metis find_task_first not_Some_eq)

lemma first_with_id_unique:
  assumes "distinct (map task_id tasks)"
  shows "first_with_id tasks x t \<longleftrightarrow> t \<in> set tasks \<and> task_id t = x"
proof
  assume "first_with_id tasks x t"
  then show "t \<in> set tasks \<and> task_id t = x" by (auto simp: first_with_id_def)
next
  assume a: "t \<in> set tasks \<and> task_id t = x"
  then obtain i where i: "i < length tasks" "tasks ! i = t" by (auto simp: in_set_conv_nth)
  have "task_id (tasks ! j) \<noteq> x" if "j < i" for j
  proof
    assume "task_id (tasks ! j) = x"
    with a i that have "map task_id tasks ! j = map task_id tasks ! i" by simp
    moreover from i that have "j < length (map task_id tasks)" "i < length (map task_id tasks)"
      by simp_all
    ultimately have "j = i" using assms unfolding distinct_conv_nth by blast
    with that show False by simp
  qed
  with a i show "first_with_id tasks x t" unfolding first_with_id_def by blast
qed

lemma dep_edges_proposed: "dep_edges taskId deps allTasks = proposed_edges taskId deps allTasks"
proof -
  have "b \<in> set (currentDeps taskId deps allTasks a) \<longleftrightarrow>
        (a = taskId \<and> b \<in> set deps) \<or>
        (a \<noteq> taskId \<and> (\<exists>t ds. first_with_id allTasks a t \<and> dependencies t = Some ds \<and> b \<in> set ds))"
    for a b
  proof (cases "a = taskId")
    case True
    then show ?thesis by (simp add: currentDeps_def)
  next
    case False
    show ?thesis
    proof (cases "find_task allTasks a")
      case None
      with False find_task_none [of allTasks a] show ?thesis by (simp add: currentDeps_def)
    next
      case (Some t)
      then have f: "first_with_id allTasks a u \<longleftrightarrow> u = t" for u
        by (metis find_task_first option.inject)
      from False Some show ?thesis
        by (cases "dependencies t") (auto simp: currentDeps_def deps_or_empty_def f)
    qed
  qed
  then show ?thesis unfolding dep_edges_def proposed_edges_def by blast
qed

lemma proposed_edges_unique:
  assumes "distinct (map task_id allTasks)"
  shows "proposed_edges taskId deps allTasks =
     {(taskId, b) | b. b \<in> set deps} \<union>
     {(task_id t, b) | t b ds. t \<in> set allTasks \<and> task_id t \<noteq> taskId \<and>
                               dependencies t = Some ds \<and> b \<in> set ds}"
  unfolding proposed_edges_def first_with_id_unique [OF assms] by auto

subsection \<open>The circular dependency error\<close>

text \<open>
  Claim C3. The error "Circular dependency detected" occurs exactly once in the result when
  \<open>taskId\<close> reaches a cycle of the graph whose edges are the proposed dependencies at
  \<open>taskId\<close> and the stored \<open>dependencies\<close> field at every other task, and not at all
  otherwise, however many cycles there are. Reaching a cycle is what lets a depth-first
  traversal from \<open>taskId\<close> come back to a node on its recursion stack, and it is exactly
  when \<open>hasCycle\<close>, the traversal of the code, answers true. With unique ids the edges
  are the proposed pairs and the pairs of each other task of the list with an entry of its
  \<open>dependencies\<close> field. All of this holds for every list of proposed dependencies, the
  empty one included.
\<close>

theorem circular_flag_iff_cycle:
  "count_list (errors (validateTaskDependencies taskId deps allTasks)) ''Circular dependency detected''
     = (if reaches_cycle (proposed_edges taskId deps allTasks) taskId then 1 else 0) \<and>
   (fst (hasCycle taskId deps allTasks taskId \<lparr>visited = {}, recursionStack = {}\<rparr>)
      \<longleftrightarrow> reaches_cycle (proposed_edges taskId deps allTasks) taskId) \<and>
   (distinct (map task_id allTasks) \<longrightarrow>
      proposed_edges taskId deps allTasks =
        {(taskId, b) | b. b \<in> set deps} \<union>
        {(task_id t, b) | t b ds. t \<in> set allTasks \<and> task_id t \<noteq> taskId \<and>
                                  dependencies t = Some ds \<and> b \<in> set ds})"
proof (intro conjI impI)
  let ?h = "fst (hasCycle taskId deps allTasks taskId \<lparr>visited = {}, recursionStack = {}\<rparr>)"
  show iff: "?h \<longleftrightarrow> reaches_cycle (proposed_edges taskId deps allTasks) taskId"
    using hasCycle_iff_reaches_cycle [of taskId deps allTasks]
    by (simp only: dep_edges_proposed)
  have "count_list (errors (validateTaskDependencies taskId deps allTasks)) ''Circular dependency detected''
     = (if ?h then 1 else 0)"
  proof (cases "deps = []")
    case True
    have "\<not> reaches_cycle (dep_edges taskId [] allTasks) taskId"
      by (rule no_edge_no_cycle) (simp add: currentDeps_def)
    then have "\<not> fst (hasCycle taskId [] allTasks taskId \<lparr>visited = {}, recursionStack = {}\<rparr>)"
      by (simp add: hasCycle_iff_reaches_cycle)
    with True show ?thesis by (simp add: validateTaskDependencies_def)
  next
    case False
    then show ?thesis
      by (auto simp: validateTaskDependencies_def Let_def count_circular_fold split: option.splits)
  qed
  then show "count_list (errors (validateTaskDependencies taskId deps allTasks)) ''Circular dependency detected''
     = (if reaches_cycle (proposed_edges taskId deps allTasks) taskId then 1 else 0)"
    by (simp only: iff)
next
  assume "distinct (map task_id allTasks)"
  then show "proposed_edges taskId deps allTasks =
        {(taskId, b) | b. b \<in> set deps} \<union>
        {(task_id t, b) | t b ds. t \<in> set allTasks \<and> task_id t \<noteq> taskId \<and>
                                  dependencies t = Some ds \<and> b \<in> set ds}"
    by (rule proposed_edges_unique)
qed

text \<open>
  Witness for C3: the proposal closes a cycle through \<open>b\<close> in the first collection and
  gets the error once; in the second the proposed edge replaces the stored one, no cycle is
  reached and there is no error.
\<close>

theorem circular_flag_iff_cycle_witness:
  "errors (validateTaskDependencies ''a'' [''b''] cycleTasks) = [''Circular dependency detected''] \<and>
   reaches_cycle (proposed_edges ''a'' [''b''] cycleTasks) ''a'' \<and>
   (''b'', ''a'') \<in> proposed_edges ''a'' [''b''] cycleTasks \<and>
   errors (validateTaskDependencies ''a'' [''b''] reroutedTasks) = [] \<and>
   \<not> reaches_cycle (proposed_edges ''a'' [''b''] reroutedTasks) ''a'' \<and>
   (''a'', ''d'') \<notin> proposed_edges ''a'' [''b''] reroutedTasks"
proof -
  have e1: "errors (validateTaskDependencies ''a'' [''b''] cycleTasks) = [''Circular dependency detected'']"
    by (simp add: validateTaskDependencies_def hasCycle.simps currentDeps_def find_task_def
          taskProjectId_def deps_or_empty_def cycleTasks_def scenarioTask_def)
  have e2: "errors (validateTaskDependencies ''a'' [''b''] reroutedTasks) = []"
    by (simp add: validateTaskDependencies_def hasCycle.simps currentDeps_def find_task_def
          taskProjectId_def deps_or_empty_def reroutedTasks_def scenarioTask_def checkDependency_def)
  have d1: "distinct (map task_id cycleTasks)" by (simp add: cycleTasks_def scenarioTask_def)
  have d2: "distinct (map task_id reroutedTasks)" by (simp add: reroutedTasks_def scenarioTask_def)
  note t1 = circular_flag_iff_cycle [of "''a''" "[''b'']" cycleTasks]
  note t2 = circular_flag_iff_cycle [of "''a''" "[''b'']" reroutedTasks]
  have r1: "reaches_cycle (proposed_edges ''a'' [''b''] cycleTasks) ''a''"
  proof (rule ccontr)
    assume "\<not> ?thesis"
    with t1 [THEN conjunct1]
    have "count_list (errors (validateTaskDependencies ''a'' [''b''] cycleTasks))
      ''Circular dependency detected'' = 0" by (simp only: if_False)
    with e1 show False by simp
  qed
  have r2: "\<not> reaches_cycle (proposed_edges ''a'' [''b''] reroutedTasks) ''a''"
  proof
    assume "reaches_cycle (proposed_edges ''a'' [''b''] reroutedTasks) ''a''"
    with t2 [THEN conjunct1]
    have "count_list (errors (validateTaskDependencies ''a'' [''b''] reroutedTasks))
      ''Circular dependency detected'' = 1" by (simp only: if_True)
    with e2 show False by simp
  qed
  from t1 [THEN conjunct2, THEN conjunct2] d1
  have "(''b'', ''a'') \<in> proposed_edges ''a'' [''b''] cycleTasks"
    by (simp add: cycleTasks_def scenarioTask_def)
  moreover from t2 [THEN conjunct2, THEN conjunct2] d2
  have "(''a'', ''d'') \<notin> proposed_edges ''a'' [''b''] reroutedTasks"
    by (simp add: reroutedTasks_def scenarioTask_def)
  ultimately show ?thesis using e1 e2 r1 r2 by (simp only: simp_thms)
qed

text \<open>
  Claim C10. When \<open>taskId\<close> is among the proposed dependencies, the result carries both
  "Task cannot depend on itself" and "Circular dependency detected", and it is not valid: the
  self edge is a cycle through \<open>taskId\<close>.
\<close>

theorem self_dependency_reports_cycle:
  assumes "taskId \<in> set deps"
  shows "''Task cannot depend on itself'' \<in> set (errors (validateTaskDependencies taskId deps allTasks)) \<and>
         ''Circular dependency detected'' \<in> set (errors (validateTaskDependencies taskId deps allTasks)) \<and>
         \<not> isValid (validateTaskDependencies taskId deps allTasks)"
proof -
  let ?E = "dep_edges taskId deps allTasks"
  from assms have "(taskId, taskId) \<in> ?E" by (simp add: dep_edges_def currentDeps_def)
  then have "reaches_cycle ?E taskId" unfolding reaches_cycle_def by blast
  then have h: "fst (hasCycle taskId deps allTasks taskId \<lparr>visited = {}, recursionStack = {}\<rparr>)"
    by (simp add: hasCycle_iff_reaches_cycle)
  let ?e2 = "[''Task cannot depend on itself'', ''Circular dependency detected'']"
  from assms have ne: "deps \<noteq> []" by auto
  have pre: "\<exists>more. errors (validateTaskDependencies taskId deps allTasks) = ?e2 @ more"
  proof (cases "taskProjectId allTasks taskId")
    case None
    with assms ne h show ?thesis by (simp add: validateTaskDependencies_def)
  next
    case (Some p)
    show ?thesis
    proof (cases "p = []")
      case True
      with Some assms ne h show ?thesis by (simp add: validateTaskDependencies_def)
    next
      case False
      obtain more where "fold (checkDependency p allTasks) deps ?e2 = ?e2 @ more"
        using fold_checkDependency [of p allTasks deps ?e2] by blast
      with False Some assms ne h show ?thesis by (simp add: validateTaskDependencies_def)
    qed
  qed
  then obtain more where e: "errors (validateTaskDependencies taskId deps allTasks) = ?e2 @ more" ..
  moreover from ne have "isValid (validateTaskDependencies taskId deps allTasks)
      = (errors (validateTaskDependencies taskId deps allTasks) = [])"
    by (simp add: validateTaskDependencies_def Let_def)
  ultimately show ?thesis by simp
qed

theorem self_dependency_reports_cycle_witness:
  "''a'' \<in> set [''b'', ''a''] \<and>
   ''Task cannot depend on itself'' \<in> set (errors (validateTaskDependencies ''a'' [''b'', ''a''] [])) \<and>
   ''Circular dependency detected'' \<in> set (errors (validateTaskDependencies ''a'' [''b'', ''a''] [])) \<and>
   \<not> isValid (validateTaskDependencies ''a'' [''b'', ''a''] [])"
  using self_dependency_reports_cycle [of "''a''" "[''b'', ''a'']" "[]"] by simp




section \<open>Properties of findNextTask\<close>

lemma dependenciesMet_resolved:
  "dependenciesMet tasks t \<longleftrightarrow>
     (\<forall>ds depId. dependencies t = Some ds \<and> depId \<in> set ds \<longrightarrow>
        (\<exists>d. first_with_id tasks depId d \<and> status d = DONE))"
proof -
  have "(case find_task tasks depId of None \<Rightarrow> False | Some depTask \<Rightarrow> status depTask = DONE)
          \<longleftrightarrow> (\<exists>d. first_with_id tasks depId d \<and> status d = DONE)" for depId
  proof (cases "find_task tasks depId")
    case None
    with find_task_none [of tasks depId] show ?thesis by simp
  next
    case (Some u)
    then have "first_with_id tasks depId d \<longleftrightarrow> d = u" for d
      by (metis find_task_first option.inject)
    with Some show ?thesis by simp
  qed
  then show ?thesis
    by (cases "dependencies t") (auto simp: dependenciesMet_def list_all_iff)
qed

lemma isAvailable_eligible: "isAvailable tasks eb t = eligible tasks eb t"
  by (auto simp: isAvailable_def eligible_def dependenciesMet_resolved)

lemma compareTasks_precedes: "compareTasks a b \<le> 0 \<longleftrightarrow> precedes a b"
  by (auto simp: compareTasks_def precedes_def Let_def)

lemma precedes_total: "\<not> precedes a b \<Longrightarrow> precedes b a"
  by (auto simp: precedes_def)

lemma precedes_trans: "precedes a b \<Longrightarrow> precedes b c \<Longrightarrow> precedes a c"
  by (auto simp: precedes_def)

lemma precedes_refl: "precedes a a"
  by (simp add: precedes_def)

lemma set_insert_sorted: "set (insert_sorted cmp x ys) = insert x (set ys)"
  by (induction ys) auto

lemma set_array_sort: "set (array_sort cmp xs) = set xs"
  by (induction xs) (auto simp: array_sort_def set_insert_sorted)

lemma insert_sorted_head:
  assumes "ys = [] \<or> (\<forall>u \<in> set ys. precedes (hd ys) u)"
  shows "\<forall>u \<in> set (insert_sorted compareTasks x ys). precedes (hd (insert_sorted compareTasks x ys)) u"
proof (cases ys)
  case Nil
  then show ?thesis by (simp add: precedes_refl)
next
  case (Cons y ys')
  with assms have h: "\<forall>u \<in> set ys. precedes y u" by simp
  show ?thesis
  proof (cases "compareTasks x y \<le> 0")
    case True
    then have "precedes x y" by (simp add: compareTasks_precedes)
    with h have "\<forall>u \<in> set ys. precedes x u" by (blast intro: precedes_trans)
    with True Cons show ?thesis by (simp add: precedes_refl)
  next
    case False
    then have "precedes y x" by (simp add: compareTasks_precedes precedes_total)
    with h False Cons show ?thesis by (auto simp: set_insert_sorted)
  qed
qed

lemma array_sort_head:
  "xs \<noteq> [] \<Longrightarrow> \<forall>u \<in> set xs. precedes (hd (array_sort compareTasks xs)) u"
proof (induction xs)
  case Nil
  then show ?case by simp
next
  case (Cons x xs)
  let ?r = "array_sort compareTasks xs"
  have s: "array_sort compareTasks (x # xs) = insert_sorted compareTasks x ?r"
    by (simp add: array_sort_def)
  have "?r = [] \<or> (\<forall>u \<in> set ?r. precedes (hd ?r) u)"
  proof (cases "xs = []")
    case True
    then show ?thesis by (simp add: array_sort_def)
  next
    case False
    with Cons.IH show ?thesis by (simp add: set_array_sort)
  qed
  from insert_sorted_head [OF this, of x] show ?case
    by (simp add: s set_insert_sorted set_array_sort)
qed

text \<open>
  Claim C2. \<open>findNextTask\<close> returns null exactly when no task of the list is eligible.
  Otherwise it returns an eligible task of the list that precedes every eligible task:
  its priority rank (critical 0, high 1, medium 2, low 3) is lower, or the ranks are equal
  and it was not created later. A task is eligible when its status is not done and not in
  progress, not blocked when \<open>excludeBlocked\<close> is set, and each of its dependency ids
  resolves to a task of the list that is done. With unique ids that is: for each dependency
  id some task of the list carries the id and is done.
\<close>

theorem findNextTask_selects_best:
  "(findNextTask tasks excludeBlocked = None \<longleftrightarrow> (\<forall>t \<in> set tasks. \<not> eligible tasks excludeBlocked t)) \<and>
   (\<forall>t. findNextTask tasks excludeBlocked = Some t \<longrightarrow>
      t \<in> set tasks \<and> eligible tasks excludeBlocked t \<and>
      (\<forall>u \<in> set tasks. eligible tasks excludeBlocked u \<longrightarrow> precedes t u)) \<and>
   priorityOrder CRITICAL = 0 \<and> priorityOrder HIGH = 1 \<and>
   priorityOrder MEDIUM = 2 \<and> priorityOrder LOW = 3 \<and>
   (distinct (map task_id tasks) \<longrightarrow>
      (\<forall>t. eligible tasks excludeBlocked t \<longleftrightarrow>
         status t \<noteq> DONE \<and> status t \<noteq> IN_PROGRESS \<and>
         (excludeBlocked \<longrightarrow> status t \<noteq> BLOCKED) \<and>
         (\<forall>ds depId. dependencies t = Some ds \<and> depId \<in> set ds \<longrightarrow>
            (\<exists>d \<in> set tasks. task_id d = depId \<and> status d = DONE))))"
proof -
  let ?av = "filter (isAvailable tasks excludeBlocked) tasks"
  let ?s = "array_sort compareTasks ?av"
  have av: "set ?av = {t \<in> set tasks. eligible tasks excludeBlocked t}"
    by (auto simp: isAvailable_eligible)
  have uniq: "eligible tasks excludeBlocked t \<longleftrightarrow>
         status t \<noteq> DONE \<and> status t \<noteq> IN_PROGRESS \<and>
         (excludeBlocked \<longrightarrow> status t \<noteq> BLOCKED) \<and>
         (\<forall>ds depId. dependencies t = Some ds \<and> depId \<in> set ds \<longrightarrow>
            (\<exists>d \<in> set tasks. task_id d = depId \<and> status d = DONE))"
    if "distinct (map task_id tasks)" for t
    unfolding eligible_def first_with_id_unique [OF that] by blast
  show ?thesis
  proof (cases "?av = []")
    case True
    then have "findNextTask tasks excludeBlocked = None" by (simp add: findNextTask_def)
    moreover from True av have "\<forall>t \<in> set tasks. \<not> eligible tasks excludeBlocked t"
      by (metis (mono_tags, lifting) empty_iff list.set(1) mem_Collect_eq)
    ultimately show ?thesis using uniq by simp
  next
    case False
    have "set ?s = set ?av" by (rule set_array_sort)
    with False have ne: "?s \<noteq> []" by (metis set_empty)
    then obtain first rest where s: "?s = first # rest" by (cases ?s) auto
    with False have r: "findNextTask tasks excludeBlocked = Some first"
      by (simp add: findNextTask_def)
    from s have "first \<in> set ?s" by simp
    then have m: "first \<in> set ?av" by (simp add: set_array_sort)
    from array_sort_head [OF False] s have b: "\<forall>u \<in> set ?av. precedes first u" by simp
    from m av have "first \<in> set tasks" and "eligible tasks excludeBlocked first" by auto
    moreover from b av have "\<forall>u \<in> set tasks. eligible tasks excludeBlocked u \<longrightarrow> precedes first u"
      by auto
    moreover from m av have "\<not> (\<forall>t \<in> set tasks. \<not> eligible tasks excludeBlocked t)" by blast
    ultimately show ?thesis using r uniq by simp
  qed
qed

text \<open>
  Witness for C2: in \<open>pickTasks\<close> the critical task \<open>y\<close> is picked. Its dependency
  \<open>d\<close> resolves to a done task of a list of five; the two critical tasks created
  earlier are not eligible, one for a dependency that resolves to no task and one for a
  dependency that is not done; the eligible \<open>x\<close> has a higher rank.
\<close>

lemma pickTasks_next:
  "findNextTask pickTasks False = Some (scenarioTask ''y'' TODO CRITICAL [''d''] 3)"
proof -
  have "filter (isAvailable pickTasks False) pickTasks =
     [scenarioTask ''x'' TODO LOW [] 1, scenarioTask ''y'' TODO CRITICAL [''d''] 3]"
    by (simp add: pickTasks_def scenarioTask_def isAvailable_def dependenciesMet_def find_task_def)
  then show ?thesis
    unfolding findNextTask_def
    by (simp add: array_sort_def compareTasks_def scenarioTask_def)
qed

theorem findNextTask_selects_best_witness:
  "findNextTask pickTasks False = Some (scenarioTask ''y'' TODO CRITICAL [''d''] 3) \<and>
   eligible pickTasks False (scenarioTask ''y'' TODO CRITICAL [''d''] 3) \<and>
   first_with_id pickTasks ''d'' (scenarioTask ''d'' DONE HIGH [] 2) \<and>
   \<not> eligible pickTasks False (scenarioTask ''z'' TODO CRITICAL [''ghost''] 0) \<and>
   \<not> eligible pickTasks False (scenarioTask ''w'' TODO CRITICAL [''x''] 0) \<and>
   eligible pickTasks False (scenarioTask ''x'' TODO LOW [] 1) \<and>
   precedes (scenarioTask ''y'' TODO CRITICAL [''d''] 3) (scenarioTask ''x'' TODO LOW [] 1)"
proof -
  let ?x = "scenarioTask ''x'' TODO LOW [] 1"
  let ?d = "scenarioTask ''d'' DONE HIGH [] 2"
  let ?y = "scenarioTask ''y'' TODO CRITICAL [''d''] 3"
  let ?z = "scenarioTask ''z'' TODO CRITICAL [''ghost''] 0"
  let ?w = "scenarioTask ''w'' TODO CRITICAL [''x''] 0"
  note t = findNextTask_selects_best [of pickTasks False]
  have dist: "distinct (map task_id pickTasks)" by (simp add: pickTasks_def scenarioTask_def)
  have mem: "?x \<in> set pickTasks" "?z \<in> set pickTasks" "?w \<in> set pickTasks"
    by (simp_all add: pickTasks_def)
  from t pickTasks_next have ey: "eligible pickTasks False ?y"
    and best: "\<forall>u \<in> set pickTasks. eligible pickTasks False u \<longrightarrow> precedes ?y u"
    by simp_all
  have "\<not> precedes ?y ?z" and "\<not> precedes ?y ?w"
    by (simp_all add: precedes_def scenarioTask_def)
  with best mem have nz: "\<not> eligible pickTasks False ?z" and nw: "\<not> eligible pickTasks False ?w"
    by blast+
  from t dist have "eligible pickTasks False ?x \<longleftrightarrow>
         status ?x \<noteq> DONE \<and> status ?x \<noteq> IN_PROGRESS \<and>
         (False \<longrightarrow> status ?x \<noteq> BLOCKED) \<and>
         (\<forall>ds depId. dependencies ?x = Some ds \<and> depId \<in> set ds \<longrightarrow>
            (\<exists>d \<in> set pickTasks. task_id d = depId \<and> status d = DONE))"
    by blast
  then have ex: "eligible pickTasks False ?x" by (simp add: scenarioTask_def)
  with best mem have px: "precedes ?y ?x" by blast
  have "1 < length pickTasks" and "pickTasks ! 1 = ?d" and "task_id ?d = ''d''"
    and "\<forall>j < 1. task_id (pickTasks ! j) \<noteq> ''d''"
    by (simp_all add: pickTasks_def scenarioTask_def)
  then have fd: "first_with_id pickTasks ''d'' ?d" unfolding first_with_id_def by blast
  from pickTasks_next ey fd nz nw ex px show ?thesis by (simp only: simp_thms)
qed

lemma scenarioA_available:
  "filter (isAvailable scenarioA True) scenarioA =
     [scenarioTask ''task4'' TODO HIGH [] 4,
      scenarioTask ''task5'' TODO MEDIUM [] 5,
      scenarioTask ''task6'' TODO HIGH [''task1''] 6]"
  by (simp add: scenarioA_def scenarioTask_def isAvailable_def dependenciesMet_def find_task_def)

text \<open>Scenario A of the specification, with blocked tasks left out: the older high task.\<close>

lemma scenarioA_next:
  "findNextTask scenarioA True = Some (scenarioTask ''task4'' TODO HIGH [] 4)"
  unfolding findNextTask_def scenarioA_available
  by (simp add: array_sort_def compareTasks_def scenarioTask_def)

text \<open>Scenario A with blocked tasks allowed: the blocked critical task is chosen.\<close>

lemma scenarioA_next_with_blocked:
  "findNextTask scenarioA False = Some (scenarioTask ''task2'' BLOCKED CRITICAL [] 2)"
proof -
  have "filter (isAvailable scenarioA False) scenarioA =
     [scenarioTask ''task2'' BLOCKED CRITICAL [] 2,
      scenarioTask ''task4'' TODO HIGH [] 4,
      scenarioTask ''task5'' TODO MEDIUM [] 5,
      scenarioTask ''task6'' TODO HIGH [''task1''] 6]"
    by (simp add: scenarioA_def scenarioTask_def isAvailable_def dependenciesMet_def find_task_def)
  then show ?thesis
    unfolding findNextTask_def
    by (simp add: array_sort_def compareTasks_def scenarioTask_def)
qed

section \<open>Properties of calculateProjectAnalytics\<close>

lemma foldl_hours: "foldl (\<lambda>sum task. sum + f task) a tasks = a + sum_list (map f tasks)"
  for a :: real
  by (induction tasks arbitrary: a) simp_all

text \<open>
  Claim C8. The completion rate is completed over total times 100, and 0 for no tasks; the
  efficiency ratio is estimated hours over actual hours times 100 when both totals are
  positive, and 0 otherwise; the totals are the sums over the tasks with a missing value
  as 0. For the empty list the total, the completion rate, the estimated hours and the
  efficiency ratio are all 0.
\<close>

theorem analytics_rates:
  "totalTasks (calculateProjectAnalytics tasks) = length tasks \<and>
   completedTasks (calculateProjectAnalytics tasks) = length (filter (\<lambda>t. status t = DONE) tasks) \<and>
   totalEstimatedHours (calculateProjectAnalytics tasks)
     = sum_list (map (\<lambda>t. safeToNumber (estimatedHours t)) tasks) \<and>
   totalActualHours (calculateProjectAnalytics tasks)
     = sum_list (map (\<lambda>t. safeToNumber (actualHours t)) tasks) \<and>
   completionRate (calculateProjectAnalytics tasks)
     = (if totalTasks (calculateProjectAnalytics tasks) = 0 then 0
        else real (completedTasks (calculateProjectAnalytics tasks))
               / real (totalTasks (calculateProjectAnalytics tasks)) * 100) \<and>
   efficiencyRatio (calculateProjectAnalytics tasks)
     = (if 0 < totalEstimatedHours (calculateProjectAnalytics tasks)
           \<and> 0 < totalActualHours (calculateProjectAnalytics tasks)
        then totalEstimatedHours (calculateProjectAnalytics tasks)
               / totalActualHours (calculateProjectAnalytics tasks) * 100
        else 0) \<and>
   totalTasks (calculateProjectAnalytics []) = 0 \<and>
   completionRate (calculateProjectAnalytics []) = 0 \<and>
   totalEstimatedHours (calculateProjectAnalytics []) = 0 \<and>
   efficiencyRatio (calculateProjectAnalytics []) = 0"
  by (simp add: calculateProjectAnalytics_def Let_def foldl_hours)

theorem analytics_rates_witness:
  "completionRate (calculateProjectAnalytics scenarioD) = 40 \<and>
   totalEstimatedHours (calculateProjectAnalytics scenarioD) = 23 \<and>
   totalActualHours (calculateProjectAnalytics scenarioD) = 6.5 \<and>
   efficiencyRatio (calculateProjectAnalytics scenarioD) = 4600 / 13"
proof -
  have l: "length scenarioD = 5"
    and c: "length (filter (\<lambda>t. status t = DONE) scenarioD) = 2"
    and e: "sum_list (map (\<lambda>t. safeToNumber (estimatedHours t)) scenarioD) = 23"
    and a: "sum_list (map (\<lambda>t. safeToNumber (actualHours t)) scenarioD) = 6.5"
    by (simp_all add: scenarioD_def hoursTask_def safeToNumber_def)
  let ?a = "calculateProjectAnalytics scenarioD"
  from analytics_rates [of scenarioD] l c e a
  have tt: "totalTasks ?a = 5" and ct: "completedTasks ?a = 2"
    and te: "totalEstimatedHours ?a = 23" and ta: "totalActualHours ?a = 6.5"
    by (simp_all only:)
  from analytics_rates [of scenarioD]
  have "completionRate ?a
     = (if totalTasks ?a = 0 then 0 else real (completedTasks ?a) / real (totalTasks ?a) * 100)"
    and "efficiencyRatio ?a
     = (if 0 < totalEstimatedHours ?a \<and> 0 < totalActualHours ?a
        then totalEstimatedHours ?a / totalActualHours ?a * 100 else 0)"
    by (simp_all only:)
  then have "completionRate ?a = 40" and "efficiencyRatio ?a = 4600 / 13"
    unfolding tt ct te ta by simp_all
  with te ta show ?thesis by simp
qed

section \<open>Properties of buildTaskDependencyGraph\<close>

subsection \<open>What the level computation reads\<close>

lemma same_deps_refl: "same_deps g g"
  by (simp add: same_deps_def)

lemma same_deps_None: "same_deps g g' \<Longrightarrow> (map_of g k = None) = (map_of g' k = None)"
  unfolding same_deps_def by (metis option.map_disc_iff)

lemma same_deps_Some:
  "same_deps g g' \<Longrightarrow> map_of g k = Some n \<Longrightarrow>
     \<exists>n'. map_of g' k = Some n' \<and> node_dependencies n' = node_dependencies n"
  unfolding same_deps_def by (metis option.simps(9) map_option_eq_Some)

lemma level_in_same_deps:
  "same_deps g g' \<Longrightarrow> level_in g t V = level_in g' t V"
proof (induction g t V rule: level_in.induct)
  case (1 graph taskId seen)
  show ?case
  proof (cases "taskId \<in> seen")
    case True
    then show ?thesis by (simp add: level_in.simps [of _ taskId seen])
  next
    case False
    show ?thesis
    proof (cases "map_of graph taskId")
      case None
      with same_deps_None [OF 1(2), of taskId] have "map_of g' taskId = None" by simp
      with None False show ?thesis by (simp add: level_in.simps [of _ taskId seen])
    next
      case (Some node)
      with same_deps_Some [OF 1(2)] obtain node' where
        n': "map_of g' taskId = Some node'" and d: "node_dependencies node' = node_dependencies node"
        by blast
      show ?thesis
      proof (cases "node_dependencies node = []")
        case True
        with Some n' d False show ?thesis by (simp add: level_in.simps [of _ taskId seen])
      next
        case ne: False
        have "fold (\<lambda>depId maxLevel.
                       if map_of graph depId \<noteq> None
                       then max maxLevel (level_in graph depId (insert taskId seen) + 1)
                       else maxLevel) (node_dependencies node) 0
            = fold (\<lambda>depId maxLevel.
                       if map_of g' depId \<noteq> None
                       then max maxLevel (level_in g' depId (insert taskId seen) + 1)
                       else maxLevel) (node_dependencies node) 0"
        proof (rule fold_cong [OF refl refl])
          fix depId assume m: "depId \<in> set (node_dependencies node)"
          show "(\<lambda>maxLevel. if map_of graph depId \<noteq> None
                       then max maxLevel (level_in graph depId (insert taskId seen) + 1)
                       else maxLevel)
              = (\<lambda>maxLevel. if map_of g' depId \<noteq> None
                       then max maxLevel (level_in g' depId (insert taskId seen) + 1)
                       else maxLevel)"
          proof (cases "map_of graph depId = None")
            case True
            with same_deps_None [OF 1(2), of depId] show ?thesis by simp
          next
            case r: False
            with same_deps_None [OF 1(2), of depId] have r': "map_of g' depId \<noteq> None" by simp
            have eq: "level_in graph depId (insert taskId seen)
                      = level_in g' depId (insert taskId seen)"
              by (rule 1(1) [OF False Some ne m r 1(2)])
            from r r' show ?thesis by (simp add: eq)
          qed
        qed
        with Some n' d False ne show ?thesis
          by (simp add: level_in.simps [of _ taskId seen])
      qed
    qed
  qed
qed

lemma level_in_seen_irrelevant:
  assumes ac: "acyclic (graph_edges g)"
  shows "(\<forall>v \<in> V. (t, v) \<notin> (graph_edges g)\<^sup>*) \<Longrightarrow> (\<forall>v \<in> V'. (t, v) \<notin> (graph_edges g)\<^sup>*) \<Longrightarrow>
         level_in g t V = level_in g t V'"
  using ac
proof (induction g t V arbitrary: V' rule: level_in.induct)
  case (1 graph taskId seen)
  let ?E = "graph_edges graph"
  from 1(2) have a: "taskId \<notin> seen" by blast
  from 1(3) have b: "taskId \<notin> V'" by blast
  show ?case
  proof (cases "map_of graph taskId")
    case None
    with a b show ?thesis
      by (simp add: level_in.simps [of _ taskId seen] level_in.simps [of _ taskId V'])
  next
    case (Some node)
    show ?thesis
    proof (cases "node_dependencies node = []")
      case True
      with Some a b show ?thesis
        by (simp add: level_in.simps [of _ taskId seen] level_in.simps [of _ taskId V'])
    next
      case ne: False
      have "fold (\<lambda>depId maxLevel.
                     if map_of graph depId \<noteq> None
                     then max maxLevel (level_in graph depId (insert taskId seen) + 1)
                     else maxLevel) (node_dependencies node) 0
          = fold (\<lambda>depId maxLevel.
                     if map_of graph depId \<noteq> None
                     then max maxLevel (level_in graph depId (insert taskId V') + 1)
                     else maxLevel) (node_dependencies node) 0"
      proof (rule fold_cong [OF refl refl])
        fix depId assume m: "depId \<in> set (node_dependencies node)"
        with Some have e: "(taskId, depId) \<in> ?E" by (auto simp: graph_edges_def)
        have nb: "(depId, taskId) \<notin> ?E\<^sup>*"
        proof
          assume "(depId, taskId) \<in> ?E\<^sup>*"
          with e have "(taskId, taskId) \<in> ?E\<^sup>+" by (rule rtrancl_into_trancl2)
          with 1(4) show False by (simp add: acyclic_def)
        qed
        have fwd: "(depId, v) \<notin> ?E\<^sup>*" if "(taskId, v) \<notin> ?E\<^sup>*" for v
          using that e by (meson converse_rtrancl_into_rtrancl)
        from nb fwd 1(2) have s1: "\<forall>v \<in> insert taskId seen. (depId, v) \<notin> ?E\<^sup>*" by blast
        from nb fwd 1(3) have s2: "\<forall>v \<in> insert taskId V'. (depId, v) \<notin> ?E\<^sup>*" by blast
        show "(\<lambda>maxLevel. if map_of graph depId \<noteq> None
                     then max maxLevel (level_in graph depId (insert taskId seen) + 1)
                     else maxLevel)
            = (\<lambda>maxLevel. if map_of graph depId \<noteq> None
                     then max maxLevel (level_in graph depId (insert taskId V') + 1)
                     else maxLevel)"
        proof (cases "map_of graph depId = None")
          case True
          then show ?thesis by simp
        next
          case r: False
          have eq: "level_in graph depId (insert taskId seen)
                    = level_in graph depId (insert taskId V')"
            by (rule 1(1) [OF a Some ne m r s1 s2 1(4)])
          show ?thesis by (simp only: eq)
        qed
      qed
      with Some a b ne show ?thesis
        by (simp add: level_in.simps [of _ taskId seen] level_in.simps [of _ taskId V'])
    qed
  qed
qed

lemma fold_max_level:
  "fold (\<lambda>d m. max m (h d + 1)) ds a
     = max a (if ds = [] then 0 else Max (set (map h ds)) + 1)"
  for a :: nat
proof (induction ds arbitrary: a)
  case Nil
  then show ?case by simp
next
  case (Cons x xs)
  show ?case
  proof (cases "xs = []")
    case True
    then show ?thesis by simp
  next
    case False
    then have "Max (set (map h (x # xs))) = max (h x) (Max (set (map h xs)))"
      by simp
    with False Cons.IH [of "max a (h x + 1)"] show ?thesis by simp
  qed
qed

lemma level_of_node:
  assumes ac: "acyclic (graph_edges g)"
    and n: "map_of g k = Some n"
    and ne: "node_dependencies n \<noteq> []"
    and res: "\<forall>d \<in> set (node_dependencies n). map_of g d \<noteq> None"
  shows "level_in g k {} = Max (set (map (\<lambda>d. level_in g d {}) (node_dependencies n))) + 1"
proof -
  let ?E = "graph_edges g"
  have "fold (\<lambda>depId maxLevel.
                 if map_of g depId \<noteq> None
                 then max maxLevel (level_in g depId (insert k {}) + 1)
                 else maxLevel) (node_dependencies n) 0
      = fold (\<lambda>d m. max m (level_in g d {} + 1)) (node_dependencies n) 0"
  proof (rule fold_cong [OF refl refl])
    fix d assume m: "d \<in> set (node_dependencies n)"
    with n have e: "(k, d) \<in> ?E" by (auto simp: graph_edges_def)
    have "(d, k) \<notin> ?E\<^sup>*"
    proof
      assume "(d, k) \<in> ?E\<^sup>*"
      with e have "(k, k) \<in> ?E\<^sup>+" by (rule rtrancl_into_trancl2)
      with ac show False by (simp add: acyclic_def)
    qed
    then have eq: "level_in g d (insert k {}) = level_in g d {}"
      by (intro level_in_seen_irrelevant [OF ac]) simp_all
    from m res have "map_of g d \<noteq> None" by blast
    then show "(\<lambda>maxLevel. if map_of g d \<noteq> None
                 then max maxLevel (level_in g d (insert k {}) + 1)
                 else maxLevel)
             = (\<lambda>m. max m (level_in g d {} + 1))"
      by (simp add: eq)
  qed
  moreover from n ne have "level_in g k {}
      = fold (\<lambda>depId maxLevel.
                 if map_of g depId \<noteq> None
                 then max maxLevel (level_in g depId (insert k {}) + 1)
                 else maxLevel) (node_dependencies n) 0"
    by (simp add: level_in.simps [of g k "{}"])
  moreover from ne have "fold (\<lambda>d m. max m (level_in g d {} + 1)) (node_dependencies n) 0
      = Max (set (map (\<lambda>d. level_in g d {}) (node_dependencies n))) + 1"
    unfolding fold_max_level by (simp only: if_False max_0L)
  ultimately show ?thesis by (simp only:)
qed

subsection \<open>Reads on a plain graph\<close>

text \<open>
  Under a plain key the read is that of a map, and on a plain graph \<open>calculateLevel\<close>
  raises nothing and returns the number \<open>level_in\<close>.
\<close>

lemma js_get_own:
  "key \<noteq> ''__proto__'' \<Longrightarrow> map_of (own_nodes g) key = Some n \<Longrightarrow> js_get g key = VNode n"
  by (simp add: js_get_def)

lemma js_get_plain:
  assumes "plain_key g k"
  shows "js_get g k = (case map_of (own_nodes g) k of Some n \<Rightarrow> VNode n | None \<Rightarrow> VUndefined)"
proof (cases "map_of (own_nodes g) k")
  case None
  with assms show ?thesis by (simp add: plain_key_def)
next
  case (Some n)
  moreover from assms have "k \<noteq> ''__proto__''" by (simp add: plain_key_def)
  ultimately show ?thesis by (simp add: js_get_own)
qed

lemma js_get_not_own:
  assumes "map_of (own_nodes g) k = None" and "map_of (own_nodes g') k = None"
    and "proto_node g' = proto_node g"
  shows "js_get g' k = js_get g k"
  unfolding js_get_def assms by (rule refl)

lemma plain_key_shape:
  assumes "fst ` set (own_nodes g') = fst ` set (own_nodes g)" and "proto_node g' = proto_node g"
  shows "plain_key g' k = plain_key g k"
proof -
  from assms(1) have n: "(map_of (own_nodes g') k = None) = (map_of (own_nodes g) k = None)"
    by (simp add: map_of_eq_None_iff)
  show ?thesis
  proof (cases "map_of (own_nodes g) k = None")
    case True
    with n have "map_of (own_nodes g') k = None" by simp
    from js_get_not_own [OF True this assms(2)] True this show ?thesis
      by (simp add: plain_key_def)
  next
    case False
    with n obtain y y' where "map_of (own_nodes g) k = Some y" and "map_of (own_nodes g') k = Some y'"
      by auto
    then show ?thesis by (simp add: plain_key_def)
  qed
qed

lemma level_plain:
  "plain_graph g \<Longrightarrow> plain_key g k \<Longrightarrow>
     calculateLevel g k S = Inr (level_in (own_nodes g) k S)"
  "plain_graph g \<Longrightarrow> \<forall>d \<in> set ds. plain_key g d \<Longrightarrow>
     level_loop g S ds m
       = Inr (fold (\<lambda>depId maxLevel.
                      if map_of (own_nodes g) depId \<noteq> None
                      then max maxLevel (level_in (own_nodes g) depId S + 1)
                      else maxLevel) ds m)"
proof (induction g k S and g S ds m rule: calculateLevel_level_loop.induct)
  case (1 graph taskId seen)
  show ?case
  proof (cases "taskId \<in> seen")
    case True
    then show ?thesis
      by (simp add: calculateLevel.simps [of _ taskId seen]
            level_in.simps [of _ taskId seen])
  next
    case False
    show ?thesis
    proof (cases "map_of (own_nodes graph) taskId")
      case None
      with False js_get_plain [OF 1(3)] show ?thesis
        by (simp add: calculateLevel.simps [of _ taskId seen]
              level_in.simps [of _ taskId seen] read_dependencies_def)
    next
      case (Some node)
      with js_get_plain [OF 1(3)]
      have r: "read_dependencies (js_get graph taskId) = Inr (Some (node_dependencies node))"
        by (simp add: read_dependencies_def)
      show ?thesis
      proof (cases "node_dependencies node = []")
        case True
        with False Some r show ?thesis
          by (simp add: calculateLevel.simps [of _ taskId seen]
                level_in.simps [of _ taskId seen])
      next
        case ne: False
        from 1(2) Some have pk: "\<forall>d \<in> set (node_dependencies node). plain_key graph d"
          by (simp add: plain_graph_def)
        from 1(1) [OF False r refl ne 1(2) pk] False Some r ne show ?thesis
          by (simp add: calculateLevel.simps [of _ taskId seen]
                level_in.simps [of _ taskId seen])
      qed
    qed
  qed
next
  case (2 graph seen maxLevel)
  then show ?case by simp
next
  case (3 graph seen depId rest maxLevel)
  from 3(5) have pd: "plain_key graph depId" and pr: "\<forall>d \<in> set rest. plain_key graph d" by simp_all
  show ?case
  proof (cases "map_of (own_nodes graph) depId")
    case None
    with js_get_plain [OF pd] have f: "\<not> js_truthy (js_get graph depId)" by (simp add: js_truthy_def)
    from 3(3) [OF f 3(4) pr] f None show ?thesis by simp
  next
    case (Some node)
    with js_get_plain [OF pd] have t: "js_truthy (js_get graph depId)" by (simp add: js_truthy_def)
    from 3(1) [OF t 3(4) pd]
    have c: "calculateLevel graph depId seen = Inr (level_in (own_nodes graph) depId seen)" .
    from 3(2) [OF t c 3(4) pr] t c Some show ?thesis by simp
  qed
qed


subsection \<open>The first two loops\<close>

text \<open>
  With no task named \<open>__proto__\<close> the first loop leaves the prototype alone; on plain
  keys the second loop raises nothing and changes only the lists of dependents.
\<close>

lemma fold_init_lookup:
  "map_of (fold (\<lambda>task graph. AList.update (task_id task) (newNode task) graph) tasks g) k
     = (case filter (\<lambda>u. task_id u = k) tasks of
          [] \<Rightarrow> map_of g k
        | ts \<Rightarrow> Some (newNode (last ts)))"
proof (induction tasks arbitrary: g)
  case Nil
  then show ?case by simp
next
  case (Cons a tasks)
  show ?case
    by (simp add: Cons.IH update_conv' split: list.splits)
qed

lemma same_cores_refl: "same_cores g g"
  by (simp add: same_cores_def)

lemma same_cores_trans: "same_cores g'' g' \<Longrightarrow> same_cores g' g \<Longrightarrow> same_cores g'' g"
  by (simp add: same_cores_def)

lemma same_cores_keys:
  assumes "same_cores g' g"
  shows "fst ` set (own_nodes g') = fst ` set (own_nodes g)"
proof -
  have "(map_of (own_nodes g') k = None) = (map_of (own_nodes g) k = None)" for k
    using assms unfolding same_cores_def by (metis option.map_disc_iff)
  then have "(k \<in> fst ` set (own_nodes g')) = (k \<in> fst ` set (own_nodes g))" for k
    by (simp add: map_of_eq_None_iff)
  then show ?thesis by blast
qed

lemma same_cores_plain_key: "same_cores g' g \<Longrightarrow> plain_key g' k = plain_key g k"
  by (rule plain_key_shape) (simp_all add: same_cores_keys, simp add: same_cores_def)

lemma init_fold_own:
  "\<forall>task \<in> set tasks. task_id task \<noteq> ''__proto__'' \<Longrightarrow>
     fold (\<lambda>task graph. put_node (task_id task) (newNode task) graph) tasks g
       = g\<lparr>own_nodes := fold (\<lambda>task nodes. AList.update (task_id task) (newNode task) nodes)
                          tasks (own_nodes g)\<rparr>"
  by (induction tasks arbitrary: g) (simp_all add: put_node_def)

lemma initNodes_plain:
  assumes "''__proto__'' \<notin> task_id ` set tasks"
  shows "proto_node (initNodes tasks) = None"
    and "map_of (own_nodes (initNodes tasks)) k
           = (case filter (\<lambda>u. task_id u = k) tasks of
                [] \<Rightarrow> None
              | ts \<Rightarrow> Some (newNode (last ts)))"
proof -
  from assms have "\<forall>task \<in> set tasks. task_id task \<noteq> ''__proto__''" by (metis image_eqI)
  from init_fold_own [OF this, of "\<lparr>own_nodes = [], proto_node = None\<rparr>"]
  have i: "initNodes tasks
      = \<lparr>own_nodes = fold (\<lambda>task nodes. AList.update (task_id task) (newNode task) nodes) tasks [],
         proto_node = None\<rparr>"
    by (simp add: initNodes_def)
  then show "proto_node (initNodes tasks) = None" by simp
  from i fold_init_lookup [of tasks "[]" k]
  show "map_of (own_nodes (initNodes tasks)) k
           = (case filter (\<lambda>u. task_id u = k) tasks of
                [] \<Rightarrow> None
              | ts \<Rightarrow> Some (newNode (last ts)))"
    by (simp split: list.splits)
qed

lemma addDependent_plain:
  assumes "plain_key g d"
  shows "\<exists>g'. addDependent t d g = Inr g' \<and> same_cores g' g"
proof (cases "map_of (own_nodes g) d")
  case None
  with js_get_plain [OF assms] have "addDependent t d g = Inr g" by (simp add: addDependent_def)
  then show ?thesis by (simp add: same_cores_refl)
next
  case (Some node)
  from assms have np: "d \<noteq> ''__proto__''" by (simp add: plain_key_def)
  let ?g = "g\<lparr>own_nodes := AList.update d (node\<lparr>dependents := dependents node @ [t]\<rparr>) (own_nodes g)\<rparr>"
  from Some js_get_plain [OF assms] np have "addDependent t d g = Inr ?g"
    by (simp add: addDependent_def put_node_def)
  moreover from Some have "same_cores ?g g"
    by (simp add: same_cores_def update_conv' core_def)
  ultimately show ?thesis by blast
qed

lemma link_task_plain:
  "\<forall>d \<in> set ds. plain_key g d \<Longrightarrow> \<exists>g'. link_task t ds g = Inr g' \<and> same_cores g' g"
proof (induction ds arbitrary: g)
  case Nil
  then show ?case by (simp add: same_cores_refl)
next
  case (Cons d ds)
  from Cons.prems have "plain_key g d" by simp
  from addDependent_plain [OF this, of t] obtain g1 where
    a: "addDependent t d g = Inr g1" and c: "same_cores g1 g" by blast
  from Cons.prems c have "\<forall>d \<in> set ds. plain_key g1 d" by (simp add: same_cores_plain_key)
  from Cons.IH [OF this] obtain g' where "link_task t ds g1 = Inr g'" and "same_cores g' g1"
    by blast
  with a c show ?case by (auto intro: same_cores_trans)
qed

lemma linkDependents_plain:
  "\<forall>task \<in> set tasks. \<forall>d \<in> set (deps_or_empty task). plain_key g d \<Longrightarrow>
     \<exists>g'. linkDependents tasks g = Inr g' \<and> same_cores g' g"
proof (induction tasks arbitrary: g)
  case Nil
  then show ?case by (simp add: same_cores_refl)
next
  case (Cons task tasks)
  show ?case
  proof (cases "dependencies task")
    case None
    from Cons.prems have "\<forall>task \<in> set tasks. \<forall>d \<in> set (deps_or_empty task). plain_key g d" by simp
    from Cons.IH [OF this] None show ?thesis by simp
  next
    case (Some ds)
    with Cons.prems have "\<forall>d \<in> set ds. plain_key g d" by (simp add: deps_or_empty_def)
    from link_task_plain [OF this, of "task_id task"] obtain g1 where
      l: "link_task (task_id task) ds g = Inr g1" and c: "same_cores g1 g" by blast
    from Cons.prems c have "\<forall>task \<in> set tasks. \<forall>d \<in> set (deps_or_empty task). plain_key g1 d"
      by (simp add: same_cores_plain_key)
    from Cons.IH [OF this] obtain g' where "linkDependents tasks g1 = Inr g'" and "same_cores g' g1"
      by blast
    with l c Some show ?thesis by (auto intro: same_cores_trans)
  qed
qed


subsection \<open>The last loop\<close>

lemma plain_graph_same_deps:
  assumes "plain_graph g0" and "same_deps (own_nodes g) (own_nodes g0)"
    and "proto_node g = proto_node g0"
  shows "plain_key g k = plain_key g0 k" and "plain_graph g"
proof -
  from same_deps_None [OF assms(2)]
  have "(k \<in> fst ` set (own_nodes g)) = (k \<in> fst ` set (own_nodes g0))" for k
    by (simp add: map_of_eq_None_iff)
  then have keys: "fst ` set (own_nodes g) = fst ` set (own_nodes g0)" by blast
  show pk: "plain_key g k = plain_key g0 k" for k
    using keys assms(3) by (rule plain_key_shape)
  show "plain_graph g"
    unfolding plain_graph_def
  proof (intro allI impI ballI)
    fix k n d assume "map_of (own_nodes g) k = Some n" and d: "d \<in> set (node_dependencies n)"
    with same_deps_Some [OF assms(2)] obtain n' where
      "map_of (own_nodes g0) k = Some n'" and "node_dependencies n' = node_dependencies n"
      by blast
    with assms(1) d have "plain_key g0 d" unfolding plain_graph_def by metis
    then show "plain_key g d" by (simp add: pk)
  qed
qed

lemma assign_levels_plain:
  assumes "plain_graph g0"
  shows "same_deps (own_nodes g) (own_nodes g0) \<Longrightarrow> proto_node g = proto_node g0 \<Longrightarrow>
         \<forall>k \<in> set ks. plain_key g0 k \<Longrightarrow>
         \<exists>g'. assign_levels ks g = Inr g' \<and>
              (\<forall>k. map_of (own_nodes g') k
                     = (if k \<in> set ks
                        then map_option (\<lambda>n. n\<lparr>level := level_in (own_nodes g0) k {}\<rparr>)
                               (map_of (own_nodes g) k)
                        else map_of (own_nodes g) k)) \<and>
              proto_node g' = proto_node g0"
proof (induction ks arbitrary: g)
  case Nil
  then show ?case by simp
next
  case (Cons a ks)
  let ?l = "level_in (own_nodes g0) a {}"
  let ?g1 = "g\<lparr>own_nodes := AList.map_entry a (\<lambda>node. node\<lparr>level := ?l\<rparr>) (own_nodes g)\<rparr>"
  note pg = plain_graph_same_deps [OF assms Cons.prems(1,2)]
  from Cons.prems(3) have "plain_key g a" by (simp add: pg(1))
  from level_plain(1) [OF pg(2) this, of "{}"]
  have "calculateLevel g a {} = Inr (level_in (own_nodes g) a {})" .
  also have "level_in (own_nodes g) a {} = ?l"
    by (rule level_in_same_deps [OF Cons.prems(1)])
  finally have c: "calculateLevel g a {} = Inr ?l" .
  have l1: "map_of (own_nodes ?g1) k
      = (if k = a then map_option (\<lambda>n. n\<lparr>level := ?l\<rparr>) (map_of (own_nodes g) k)
         else map_of (own_nodes g) k)" for k
    by (simp add: map_of_map_entry split: option.splits)
  have "same_deps (own_nodes ?g1) (own_nodes g)"
    unfolding same_deps_def l1 by (auto simp: option.map_comp comp_def)
  with Cons.prems(1) have sd: "same_deps (own_nodes ?g1) (own_nodes g0)"
    by (simp add: same_deps_def)
  from Cons.prems(2) have pr: "proto_node ?g1 = proto_node g0" by simp
  from Cons.prems(3) have pk: "\<forall>k \<in> set ks. plain_key g0 k" by simp
  from Cons.IH [OF sd pr pk] obtain g' where
    r: "assign_levels ks ?g1 = Inr g'"
    and m: "\<And>k. map_of (own_nodes g') k
                = (if k \<in> set ks
                   then map_option (\<lambda>n. n\<lparr>level := level_in (own_nodes g0) k {}\<rparr>)
                          (map_of (own_nodes ?g1) k)
                   else map_of (own_nodes ?g1) k)"
    and p: "proto_node g' = proto_node g0"
    by blast
  from c r have "assign_levels (a # ks) g = Inr g'" by simp
  moreover have "map_of (own_nodes g') k
      = (if k \<in> set (a # ks)
         then map_option (\<lambda>n. n\<lparr>level := level_in (own_nodes g0) k {}\<rparr>) (map_of (own_nodes g) k)
         else map_of (own_nodes g) k)" for k
    unfolding m l1 by (cases "map_of (own_nodes g) k") auto
  ultimately show ?case using p by blast
qed


subsection \<open>The nodes of the graph\<close>

lemma last_filter_mem:
  assumes "filter P xs \<noteq> []"
  shows "last (filter P xs) \<in> set xs \<and> P (last (filter P xs))"
proof -
  from assms have "last (filter P xs) \<in> set (filter P xs)" by (rule last_in_set)
  then show ?thesis by simp
qed

lemma filter_distinct_key:
  "distinct (map f xs) \<Longrightarrow> x \<in> set xs \<Longrightarrow> filter (\<lambda>u. f u = f x) xs = [x]"
proof (induction xs)
  case Nil
  then show ?case by simp
next
  case (Cons a xs)
  from Cons.prems(1) have na: "f a \<notin> f ` set xs" and dx: "distinct (map f xs)" by simp_all
  show ?case
  proof (cases "x = a")
    case True
    from na have "\<forall>u \<in> set xs. f u \<noteq> f a" by (metis image_eqI)
    then have "filter (\<lambda>u. f u = f a) xs = []" by (simp add: filter_empty_conv)
    with True show ?thesis by simp
  next
    case False
    with Cons.prems(2) have m: "x \<in> set xs" by simp
    with na have "f a \<noteq> f x" by (metis image_eqI)
    with Cons.IH [OF dx m] show ?thesis by simp
  qed
qed

lemma nodes_of_node:
  assumes "nodes_of tasks nodes" and "map_of nodes k = Some n"
  shows "node_task n = last (filter (\<lambda>u. task_id u = k) tasks)"
    and "node_dependencies n = deps_or_empty (node_task n)"
    and "node_task n \<in> set tasks"
    and "task_id (node_task n) = k"
proof -
  let ?ts = "filter (\<lambda>u. task_id u = k) tasks"
  from assms(1) have "map_option core (map_of nodes k)
      = (case ?ts of [] \<Rightarrow> None | ts \<Rightarrow> Some (last ts, deps_or_empty (last ts)))"
    by (simp add: nodes_of_def)
  with assms(2) have ne: "?ts \<noteq> []" and c: "core n = (last ?ts, deps_or_empty (last ?ts))"
    by (auto split: list.splits)
  from c show t: "node_task n = last ?ts" by (simp add: core_def)
  from c show "node_dependencies n = deps_or_empty (node_task n)" by (simp add: core_def)
  from last_filter_mem [OF ne] t show "node_task n \<in> set tasks" by simp
  from last_filter_mem [OF ne] t show "task_id (node_task n) = k" by simp
qed

lemma nodes_of_keys:
  assumes "nodes_of tasks nodes"
  shows "map_of nodes k \<noteq> None \<longleftrightarrow> k \<in> task_id ` set tasks"
proof -
  have "(filter (\<lambda>u. task_id u = k) tasks \<noteq> []) = (k \<in> task_id ` set tasks)"
    by (auto simp: filter_empty_conv)
  moreover from assms have "map_option core (map_of nodes k)
      = (case filter (\<lambda>u. task_id u = k) tasks of
           [] \<Rightarrow> None | ts \<Rightarrow> Some (last ts, deps_or_empty (last ts)))"
    by (simp add: nodes_of_def)
  ultimately show ?thesis
    by (cases "map_of nodes k") (auto split: list.splits)
qed

lemma nodes_of_edges:
  assumes "nodes_of tasks nodes"
  shows "graph_edges nodes \<subseteq> task_edges tasks"
proof
  fix e assume "e \<in> graph_edges nodes"
  then obtain a b n where e: "e = (a, b)"
    and n: "map_of nodes a = Some n"
    and b: "b \<in> set (node_dependencies n)"
    by (auto simp: graph_edges_def)
  note m = nodes_of_node(3) [OF assms n] and i = nodes_of_node(4) [OF assms n]
    and d = nodes_of_node(2) [OF assms n]
  from b d have "b \<in> set (deps_or_empty (node_task n))" by simp
  with m i have "\<exists>t d. (a, b) = (task_id t, d) \<and> t \<in> set tasks \<and> d \<in> set (deps_or_empty t)"
    by (intro exI [of _ "node_task n"] exI [of _ b]) simp
  then show "e \<in> task_edges tasks" unfolding task_edges_def e by (rule CollectI)
qed

lemma plain_ids_init:
  assumes "plain_ids tasks" and "t \<in> set tasks" and "d \<in> set (deps_or_empty t)"
  shows "plain_key (initNodes tasks) d"
proof -
  from assms(1) have np: "''__proto__'' \<notin> task_id ` set tasks" by (simp add: plain_ids_def)
  from assms have c: "d \<in> task_id ` set tasks \<or> (d \<noteq> ''__proto__'' \<and> d \<notin> set object_prototype_names)"
    unfolding plain_ids_def by blast
  with np have d: "d \<noteq> ''__proto__''" by metis
  have "js_get (initNodes tasks) d = VUndefined" if "map_of (own_nodes (initNodes tasks)) d = None"
  proof -
    from that initNodes_plain(2) [OF np, of d] have "filter (\<lambda>u. task_id u = d) tasks = []"
      by (simp split: list.splits)
    then have "d \<notin> task_id ` set tasks" by (auto simp: filter_empty_conv)
    with c have "d \<notin> set object_prototype_names" by simp
    with that d initNodes_plain(1) [OF np] show ?thesis
      by (simp add: js_get_def inherited_def)
  qed
  with d show ?thesis by (simp add: plain_key_def)
qed

lemma linked_plain:
  assumes "plain_ids tasks"
  shows "\<exists>g. linkDependents tasks (initNodes tasks) = Inr g \<and> proto_node g = None \<and>
             nodes_of tasks (own_nodes g) \<and> plain_graph g \<and>
             (\<forall>k \<in> task_id ` set tasks. plain_key g k)"
proof -
  from assms have np: "''__proto__'' \<notin> task_id ` set tasks" by (simp add: plain_ids_def)
  from plain_ids_init [OF assms]
  have "\<forall>task \<in> set tasks. \<forall>d \<in> set (deps_or_empty task). plain_key (initNodes tasks) d" by blast
  from linkDependents_plain [OF this] obtain g where
    l: "linkDependents tasks (initNodes tasks) = Inr g" and c: "same_cores g (initNodes tasks)"
    by blast
  from c initNodes_plain(1) [OF np] have p: "proto_node g = None" by (simp add: same_cores_def)
  have n: "nodes_of tasks (own_nodes g)"
    unfolding nodes_of_def
  proof
    fix k
    from c have "map_option core (map_of (own_nodes g) k)
        = map_option core (map_of (own_nodes (initNodes tasks)) k)" by (simp add: same_cores_def)
    then show "map_option core (map_of (own_nodes g) k)
        = (case filter (\<lambda>u. task_id u = k) tasks of
             [] \<Rightarrow> None | ts \<Rightarrow> Some (last ts, deps_or_empty (last ts)))"
      by (simp add: initNodes_plain(2) [OF np] core_def newNode_def split: list.splits)
  qed
  have pg: "plain_graph g"
    unfolding plain_graph_def
  proof (intro allI impI ballI)
    fix k nd d assume m: "map_of (own_nodes g) k = Some nd" and d: "d \<in> set (node_dependencies nd)"
    from d nodes_of_node(2) [OF n m] have "d \<in> set (deps_or_empty (node_task nd))" by simp
    from plain_ids_init [OF assms nodes_of_node(3) [OF n m] this]
    show "plain_key g d" by (simp add: same_cores_plain_key [OF c])
  qed
  have "plain_key g k" if "k \<in> task_id ` set tasks" for k
  proof -
    from that np have "k \<noteq> ''__proto__''" by metis
    moreover from that nodes_of_keys [OF n, of k] have "map_of (own_nodes g) k \<noteq> None" by simp
    ultimately show ?thesis unfolding plain_key_def by blast
  qed
  with l p n pg show ?thesis by blast
qed

lemma build_plain:
  assumes "plain_ids tasks"
  obtains g1 :: TaskDependencyGraph and g where "nodes_of tasks (own_nodes g1)"
    and "buildTaskDependencyGraph tasks = Inr g"
    and "\<And>k. k \<in> task_id ` set tasks \<Longrightarrow>
              \<exists>n1. map_of (own_nodes g1) k = Some n1 \<and>
                   js_get g k = VNode (n1\<lparr>level := level_in (own_nodes g1) k {}\<rparr>)"
proof -
  from linked_plain [OF assms] obtain g1 where
    l: "linkDependents tasks (initNodes tasks) = Inr g1" and p: "proto_node g1 = None"
    and n: "nodes_of tasks (own_nodes g1)" and pg: "plain_graph g1"
    and pk: "\<forall>k \<in> task_id ` set tasks. plain_key g1 k" by blast
  have "\<forall>k \<in> set (map fst (own_nodes g1)). plain_key g1 k"
  proof
    fix k assume "k \<in> set (map fst (own_nodes g1))"
    then have "map_of (own_nodes g1) k \<noteq> None" by (simp add: map_of_eq_None_iff)
    with nodes_of_keys [OF n, of k] have "k \<in> task_id ` set tasks" by simp
    with pk show "plain_key g1 k" by blast
  qed
  from assign_levels_plain [OF pg same_deps_refl refl this] obtain g where
    a: "assign_levels (map fst (own_nodes g1)) g1 = Inr g"
    and m: "\<And>k. map_of (own_nodes g) k
                = (if k \<in> set (map fst (own_nodes g1))
                   then map_option (\<lambda>n. n\<lparr>level := level_in (own_nodes g1) k {}\<rparr>)
                          (map_of (own_nodes g1) k)
                   else map_of (own_nodes g1) k)"
    by blast
  from l a have b: "buildTaskDependencyGraph tasks = Inr g"
    by (simp add: buildTaskDependencyGraph_def assignLevels_def)
  have lk: "\<exists>n1. map_of (own_nodes g1) k = Some n1 \<and>
             js_get g k = VNode (n1\<lparr>level := level_in (own_nodes g1) k {}\<rparr>)"
    if k: "k \<in> task_id ` set tasks" for k
  proof -
    from k nodes_of_keys [OF n, of k] obtain n1 where n1: "map_of (own_nodes g1) k = Some n1"
      by auto
    then have "k \<in> set (map fst (own_nodes g1))" by (auto dest: map_of_key)
    with m [of k] n1
    have "map_of (own_nodes g) k = Some (n1\<lparr>level := level_in (own_nodes g1) k {}\<rparr>)" by simp
    moreover from k pk have "plain_key g1 k" by blast
    then have "k \<noteq> ''__proto__''" by (simp add: plain_key_def)
    ultimately have "js_get g k = VNode (n1\<lparr>level := level_in (own_nodes g1) k {}\<rparr>)"
      by (simp add: js_get_own)
    with n1 show ?thesis by blast
  qed
  show ?thesis by (rule that [OF n b lk])
qed

subsection \<open>The levels of an acyclic collection\<close>

text \<open>
  Claim C5. Take an acyclic task collection with plain ids: no task has the id
  \<open>__proto__\<close>, and a dependency id that is no task id is not the name of a property
  that every object inherits, which holds of the UUIDs that the database gives. Then
  \<open>buildTaskDependencyGraph\<close> returns a graph, and every task id reads a node of it.
  The node carries the task of that id (the last one, were an id repeated) and its
  dependency list. When the list is empty the level is 0. When it is not empty and every
  dependency id is the id of a task of the collection, the dependencies have levels
  \<open>L1..Ln\<close> and the level is \<open>max(L1..Ln) + 1\<close>.
\<close>

theorem buildGraph_levels:
  assumes "acyclic (task_edges tasks)" and "plain_ids tasks" and "t \<in> set tasks"
  shows "\<exists>g n. buildTaskDependencyGraph tasks = Inr g \<and>
           js_get g (task_id t) = VNode n \<and>
           node_task n = last (filter (\<lambda>u. task_id u = task_id t) tasks) \<and>
           (distinct (map task_id tasks) \<longrightarrow> node_task n = t) \<and>
           node_dependencies n = deps_or_empty (node_task n) \<and>
           (node_dependencies n = [] \<longrightarrow> level n = 0) \<and>
           (node_dependencies n \<noteq> [] \<and> set (node_dependencies n) \<subseteq> task_id ` set tasks \<longrightarrow>
              (\<exists>ls. map (levelOf tasks) (node_dependencies n) = map Some ls \<and>
                    level n = Max (set ls) + 1))"
proof (rule build_plain [OF assms(2)])
  fix g1 :: TaskDependencyGraph and g :: TaskDependencyGraph
  assume nodes: "nodes_of tasks (own_nodes g1)"
    and b: "buildTaskDependencyGraph tasks = Inr g"
    and look: "\<And>k. k \<in> task_id ` set tasks \<Longrightarrow>
              \<exists>n1. map_of (own_nodes g1) k = Some n1 \<and>
                   js_get g k = VNode (n1\<lparr>level := level_in (own_nodes g1) k {}\<rparr>)"
  let ?k = "task_id t"
  let ?own = "own_nodes g1"
  from assms(1) nodes_of_edges [OF nodes] have ac: "acyclic (graph_edges ?own)"
    by (rule acyclic_subset)
  from assms(3) have "?k \<in> task_id ` set tasks" by simp
  from look [OF this] obtain n0 where n0: "map_of ?own ?k = Some n0"
    and n: "js_get g ?k = VNode (n0\<lparr>level := level_in ?own ?k {}\<rparr>)" by blast
  let ?n = "n0\<lparr>level := level_in ?own ?k {}\<rparr>"
  from nodes_of_node(1,2) [OF nodes n0]
  have t: "node_task ?n = last (filter (\<lambda>u. task_id u = ?k) tasks)"
    and d: "node_dependencies ?n = deps_or_empty (node_task ?n)" by simp_all
  have u: "node_task ?n = t" if "distinct (map task_id tasks)"
  proof -
    from that assms(3) have "filter (\<lambda>u. task_id u = ?k) tasks = [t]"
      by (rule filter_distinct_key)
    with t show ?thesis by simp
  qed
  have z: "level ?n = 0" if "node_dependencies ?n = []"
    using that n0 by (simp add: level_in.simps [of ?own ?k "{}"])
  have m: "\<exists>ls. map (levelOf tasks) (node_dependencies ?n) = map Some ls \<and>
                level ?n = Max (set ls) + 1"
    if ne: "node_dependencies ?n \<noteq> []" and sub: "set (node_dependencies ?n) \<subseteq> task_id ` set tasks"
  proof -
    let ?ls = "map (\<lambda>d. level_in ?own d {}) (node_dependencies n0)"
    from sub have res: "\<forall>d \<in> set (node_dependencies n0). map_of ?own d \<noteq> None"
      using nodes_of_keys [OF nodes] by fastforce
    have "levelOf tasks d = Some (level_in ?own d {})" if "d \<in> set (node_dependencies n0)" for d
    proof -
      from that sub have "d \<in> task_id ` set tasks" by auto
      from look [OF this] show ?thesis by (auto simp: levelOf_def b)
    qed
    then have "map (levelOf tasks) (node_dependencies ?n) = map Some ?ls" by simp
    moreover from ne have "level ?n = Max (set ?ls) + 1"
      using level_of_node [OF ac n0 _ res] by simp
    ultimately show ?thesis by blast
  qed
  from b n t u d z m show ?thesis by blast
qed


text \<open>
  A UUID in its text form has 36 characters, which no inherited property name has, so a
  collection whose ids and dependency ids are UUIDs has plain ids.
\<close>

lemma uuid_length_plain:
  "length d = 36 \<Longrightarrow> d \<noteq> ''__proto__'' \<and> d \<notin> set object_prototype_names"
  by (auto simp: object_prototype_names_def)

lemma uuid_ids_plain:
  assumes "\<forall>t \<in> set tasks. length (task_id t) = 36 \<and> (\<forall>d \<in> set (deps_or_empty t). length d = 36)"
  shows "plain_ids tasks"
proof -
  from assms have "\<forall>t \<in> set tasks. task_id t \<noteq> ''__proto__''"
    using uuid_length_plain by blast
  then have "''__proto__'' \<notin> task_id ` set tasks" by auto
  moreover from assms have "\<forall>t \<in> set tasks. \<forall>d \<in> set (deps_or_empty t).
      d \<noteq> ''__proto__'' \<and> d \<notin> set object_prototype_names"
    using uuid_length_plain by blast
  ultimately show ?thesis unfolding plain_ids_def by blast
qed

text \<open>
  Outside the plain ids the function can raise: a dependency named \<open>constructor\<close> that
  is no task id reads the inherited function, which has no list of dependents.
\<close>

lemma inherited_dependency_raises:
  "buildTaskDependencyGraph [scenarioTask ''a'' TODO MEDIUM [''constructor''] 1] = Inl TypeError"
  by code_simp

lemma chain3_acyclic: "acyclic (task_edges chain3)"
proof (rule acyclicI_order)
  fix a b assume "(a, b) \<in> task_edges chain3"
  then have "(a, b) \<in> {(''a'', ''b''), (''a'', ''c''), (''b'', ''c'')}"
    by (auto simp: task_edges_def chain3_def deps_or_empty_def)
  then show "(if b = ''a'' then 2 else if b = ''b'' then 1 else 0 :: nat)
           < (if a = ''a'' then 2 else if a = ''b'' then 1 else 0)"
    by auto
qed

lemma chain3_plain: "plain_ids chain3"
  by (simp add: plain_ids_def chain3_def deps_or_empty_def)

lemma chain3_levels:
  "levelOf chain3 ''a'' = Some 2 \<and> levelOf chain3 ''b'' = Some 1 \<and> levelOf chain3 ''c'' = Some 0"
  by code_simp

text \<open>Witness for C5: the chain of three tasks; \<open>a\<close> gets level 2 over the levels 1 and 0.\<close>

theorem buildGraph_levels_witness:
  "\<exists>g n. buildTaskDependencyGraph chain3 = Inr g \<and> js_get g ''a'' = VNode n \<and>
        node_dependencies n = [''b'', ''c''] \<and> level n = 2 \<and>
        map (levelOf chain3) (node_dependencies n) = [Some 1, Some 0]"
proof -
  let ?a = "\<lparr>task_id = ''a'', projectId = ''p'', status = TODO, priority = MEDIUM,
       dependencies = Some [''b'', ''c''], estimatedHours = None, actualHours = None,
       createdAt = 0, completedAt = None\<rparr>"
  have mem: "?a \<in> set chain3" by (simp add: chain3_def)
  have d: "distinct (map task_id chain3)" by (simp add: chain3_def)
  have ids: "task_id ` set chain3 = {''a'', ''b'', ''c''}" by (auto simp: chain3_def)
  from buildGraph_levels [OF chain3_acyclic chain3_plain mem] obtain g n where
    b: "buildTaskDependencyGraph chain3 = Inr g"
    and n: "js_get g (task_id ?a) = VNode n"
    and dt: "distinct (map task_id chain3) \<longrightarrow> node_task n = ?a"
    and nd: "node_dependencies n = deps_or_empty (node_task n)"
    and lv: "node_dependencies n \<noteq> [] \<and> set (node_dependencies n) \<subseteq> task_id ` set chain3 \<longrightarrow>
              (\<exists>ls. map (levelOf chain3) (node_dependencies n) = map Some ls \<and>
                    level n = Max (set ls) + 1)"
    by blast
  from dt d have t: "node_task n = ?a" by blast
  with nd have ds: "node_dependencies n = [''b'', ''c'']" by (simp add: deps_or_empty_def)
  with ids have "node_dependencies n \<noteq> [] \<and> set (node_dependencies n) \<subseteq> task_id ` set chain3"
    by simp
  with lv obtain ls where "map (levelOf chain3) (node_dependencies n) = map Some ls"
    and l: "level n = Max (set ls) + 1" by blast
  with ds chain3_levels have "ls = [1, 0]" by auto
  with l have "level n = 2" by simp
  with b n ds chain3_levels show ?thesis by simp
qed

section \<open>Properties of generateTasksFromPRP\<close>

subsection \<open>The bound of the parser is enough\<close>

lemma skip_ws_length: "length (skip_ws s) \<le> length s"
  by (simp add: skip_ws_def length_dropWhile_le)

lemma takeWhile_consumes:
  "takeWhile P xs \<noteq> [] \<Longrightarrow> length (dropWhile P xs) < length xs"
proof -
  assume "takeWhile P xs \<noteq> []"
  then have "0 < length (takeWhile P xs)" by simp
  moreover have "length (takeWhile P xs) + length (dropWhile P xs) = length xs"
    by (metis length_append takeWhile_dropWhile_id)
  ultimately show ?thesis by linarith
qed

lemma parse_string_body_consumes:
  "parse_string_body cs = Some (s, rest) \<Longrightarrow> length rest < length cs"
proof (induction cs arbitrary: s rule: parse_string_body.induct)
  case 1
  then show ?case by simp
next
  case (2 c cs)
  then show ?case
    by (fastforce split: if_splits list.splits option.splits prod.splits)
qed

lemma parse_frac_length: "parse_frac s = Some (fs, r) \<Longrightarrow> length r \<le> length s"
  by (auto simp: parse_frac_def split: list.splits if_splits
      intro: le_trans [OF length_dropWhile_le])

lemma parse_exp_length: "parse_exp s = Some (eneg, es, r) \<Longrightarrow> length r \<le> length s"
  by (auto simp: parse_exp_def Let_def split: list.splits if_splits
      intro: le_trans [OF length_dropWhile_le])

lemma parse_number_consumes:
  assumes "parse_number cs = Some (x, rest)"
  shows "length rest < length cs"
proof -
  define r0 where "r0 = (case cs of [] \<Rightarrow> cs | c # r \<Rightarrow> if c = CHR ''-'' then r else cs)"
  have r0: "length r0 \<le> length cs" by (simp add: r0_def split: list.splits)
  from assms have ds: "takeWhile is_digit r0 \<noteq> []"
    by (auto simp: parse_number_def r0_def Let_def split: list.splits if_splits)
  from assms have "\<exists>fs r2 eneg es. parse_frac (dropWhile is_digit r0) = Some (fs, r2)
      \<and> parse_exp r2 = Some (eneg, es, rest)"
    by (auto simp: parse_number_def r0_def Let_def split: list.splits if_splits option.splits)
  then obtain fs r2 eneg es where f: "parse_frac (dropWhile is_digit r0) = Some (fs, r2)"
    and e: "parse_exp r2 = Some (eneg, es, rest)"
    by blast
  from parse_exp_length [OF e] parse_frac_length [OF f] takeWhile_consumes [OF ds] r0
  show ?thesis by linarith
qed

lemma parse_consumes:
  "parse_value k s = Some (v, rest) \<Longrightarrow> length rest < length s"
  "parse_elements k s = Some (vs, rest) \<Longrightarrow> length rest < length s"
  "parse_members k s = Some (ms, rest) \<Longrightarrow> length rest < length s"
proof (induction k s and k s and k s arbitrary: v rest and vs rest and ms rest
       rule: parse_value_parse_elements_parse_members.induct)
  case (1 cs)
  then show ?case by simp
next
  case (2 n)
  then show ?case by simp
next
  case (3 n c r)
  consider (arr) "c = CHR ''[''" | (obj) "c \<noteq> CHR ''[''" "c = CHR ''{''"
    | (str) "c \<noteq> CHR ''[''" "c \<noteq> CHR ''{''" "c = CHR 0x22"
    | (num) "c \<noteq> CHR ''[''" "c \<noteq> CHR ''{''" "c \<noteq> CHR 0x22" "c = CHR ''-'' \<or> is_digit c"
    | (lit) "c \<noteq> CHR ''[''" "c \<noteq> CHR ''{''" "c \<noteq> CHR 0x22" "\<not> (c = CHR ''-'' \<or> is_digit c)"
    by blast
  then show ?case
  proof cases
    case arr
    show ?thesis
    proof (cases "skip_ws r")
      case Nil
      with arr 3(3) show ?thesis by simp
    next
      case (Cons d r')
      with skip_ws_length [of r] have l: "length r' < length r" by simp
      show ?thesis
      proof (cases "d = CHR '']''")
        case True
        with arr Cons 3(3) l show ?thesis by auto
      next
        case False
        with arr Cons 3(3) obtain vs where "parse_elements n (d # r') = Some (vs, rest)"
          by auto
        from 3(1) [OF arr Cons False this] l show ?thesis by simp
      qed
    qed
  next
    case obj
    show ?thesis
    proof (cases "skip_ws r")
      case Nil
      with obj 3(3) show ?thesis by simp
    next
      case (Cons d r')
      with skip_ws_length [of r] have l: "length r' < length r" by simp
      show ?thesis
      proof (cases "d = CHR ''}''")
        case True
        with obj Cons 3(3) l show ?thesis by auto
      next
        case False
        with obj Cons 3(3) obtain ms where "parse_members n (d # r') = Some (ms, rest)"
          by auto
        from 3(2) [OF obj Cons False this] l show ?thesis by simp
      qed
    qed
  next
    case str
    with 3(3) obtain s where "parse_string_body r = Some (s, rest)" by auto
    from parse_string_body_consumes [OF this] show ?thesis by simp
  next
    case num
    with 3(3) obtain x where "parse_number (c # r) = Some (x, rest)" by auto
    then show ?thesis by (rule parse_number_consumes)
  next
    case lit
    with 3(3) have "rest = drop 4 (c # r) \<or> rest = drop 5 (c # r)"
      by (simp split: if_splits del: Cons_prefix_Cons drop_Suc_Cons)
    then show ?thesis by auto
  qed
next
  case (4 cs)
  then show ?case by simp
next
  case (5 n cs)
  from 5(3) obtain v r1 where v: "parse_value n (skip_ws cs) = Some (v, r1)"
    by (auto split: option.splits)
  from 5(1) [OF v] skip_ws_length [of cs] have l1: "length r1 < length cs" by simp
  show ?case
  proof (cases "skip_ws r1")
    case Nil
    with v 5(3) show ?thesis by simp
  next
    case (Cons d r)
    with skip_ws_length [of r1] have l2: "length r < length r1" by simp
    show ?thesis
    proof (cases "d = CHR '',''")
      case True
      with v Cons 5(3) obtain vs' where p: "parse_elements n r = Some (vs', rest)" by auto
      from 5(2) [OF v refl Cons True p] l1 l2 show ?thesis by simp
    next
      case False
      with v Cons 5(3) have "rest = r" by (auto split: if_splits)
      with l1 l2 show ?thesis by simp
    qed
  qed
next
  case (6 cs)
  then show ?case by simp
next
  case (7 n cs)
  show ?case
  proof (cases "skip_ws cs")
    case Nil
    with 7(3) show ?thesis by simp
  next
    case c1: (Cons q r)
    with skip_ws_length [of cs] have l0: "length r < length cs" by simp
    from c1 7(3) have q: "\<not> q \<noteq> CHR 0x22" by (auto split: if_splits)
    from c1 q 7(3) obtain k rest1 where k: "parse_string_body r = Some (k, rest1)"
      by (auto split: option.splits)
    from parse_string_body_consumes [OF k] have l1: "length rest1 < length r" .
    show ?thesis
    proof (cases "skip_ws rest1")
      case Nil
      with c1 q k 7(3) show ?thesis by simp
    next
      case c2: (Cons col r2)
      with skip_ws_length [of rest1] have l2: "length r2 < length rest1" by simp
      from c1 q k c2 7(3) have col: "\<not> col \<noteq> CHR '':''" by (auto split: if_splits)
      from c1 q k c2 col 7(3) obtain v rest2 where v: "parse_value n (skip_ws r2) = Some (v, rest2)"
        by (auto split: option.splits)
      from 7(1) [OF c1 q k refl c2 col v] skip_ws_length [of r2]
      have l3: "length rest2 < length r2" by simp
      show ?thesis
      proof (cases "skip_ws rest2")
        case Nil
        with c1 q k c2 col v 7(3) show ?thesis by simp
      next
        case c3: (Cons d r3)
        with skip_ws_length [of rest2] have l4: "length r3 < length rest2" by simp
        show ?thesis
        proof (cases "d = CHR '',''")
          case True
          with c1 q k c2 col v c3 7(3) obtain ms' where p: "parse_members n r3 = Some (ms', rest)"
            by auto
          from 7(2) [OF c1 q k refl c2 col v refl c3 True p] l0 l1 l2 l3 l4 show ?thesis by simp
        next
          case False
          with c1 q k c2 col v c3 7(3) have "rest = r3" by (auto split: if_splits)
          with l0 l1 l2 l3 l4 show ?thesis by simp
        qed
      qed
    qed
  qed
qed

lemma parse_fuel_step:
  "(2 * length s + 1 \<le> k \<longrightarrow> parse_value (Suc k) s = parse_value k s) \<and>
   (2 * length s + 2 \<le> k \<longrightarrow> parse_elements (Suc k) s = parse_elements k s) \<and>
   (2 * length s + 2 \<le> k \<longrightarrow> parse_members (Suc k) s = parse_members k s)"
proof (induction k arbitrary: s)
  case 0
  then show ?case by simp
next
  case (Suc k)
  note IHv = Suc.IH [THEN conjunct1, rule_format]
  note IHe = Suc.IH [THEN conjunct2, THEN conjunct1, rule_format]
  note IHm = Suc.IH [THEN conjunct2, THEN conjunct2, rule_format]
  have v: "parse_value (Suc (Suc k)) s = parse_value (Suc k) s" if b: "2 * length s + 1 \<le> Suc k"
  proof (cases s)
    case Nil
    then show ?thesis by simp
  next
    case (Cons c r)
    have e: "parse_elements (Suc k) (d # r') = parse_elements k (d # r')"
      and m: "parse_members (Suc k) (d # r') = parse_members k (d # r')"
      if "skip_ws r = d # r'" for d r'
    proof -
      from that skip_ws_length [of r] have "length (d # r') \<le> length r" by simp
      with b Cons have "2 * length (d # r') + 2 \<le> k" by simp
      then show "parse_elements (Suc k) (d # r') = parse_elements k (d # r')"
        and "parse_members (Suc k) (d # r') = parse_members k (d # r')"
        by (rule IHe, rule IHm)
    qed
    show ?thesis
      unfolding Cons parse_value.simps
      by (simp only: e m split: list.splits cong: list.case_cong if_cong) 
  qed
  have e: "parse_elements (Suc (Suc k)) s = parse_elements (Suc k) s" if b: "2 * length s + 2 \<le> Suc k"
  proof -
    from b skip_ws_length [of s] have "2 * length (skip_ws s) + 1 \<le> k" by simp
    then have pv: "parse_value (Suc k) (skip_ws s) = parse_value k (skip_ws s)" by (rule IHv)
    show ?thesis
    proof (cases "parse_value k (skip_ws s)")
      case None
      with pv show ?thesis by simp
    next
      case (Some a)
      obtain v rest where a: "a = (v, rest)" by (cases a)
      from Some a parse_consumes(1) [of k "skip_ws s" v rest] skip_ws_length [of s]
      have l1: "length rest < length s" by simp
      have pe: "parse_elements (Suc k) r = parse_elements k r" if "skip_ws rest = d # r" for d r
      proof -
        from that skip_ws_length [of rest] have "length r < length rest" by simp
        with l1 b have "2 * length r + 2 \<le> k" by simp
        then show ?thesis by (rule IHe)
      qed
      show ?thesis
        unfolding parse_elements.simps(2) [of "Suc k" s] parse_elements.simps(2) [of k s]
        using Some a pv
        by (simp add: pe split: list.splits del: parse_elements.simps)
    qed
  qed
  have m: "parse_members (Suc (Suc k)) s = parse_members (Suc k) s" if b: "2 * length s + 2 \<le> Suc k"
  proof -
    have pv: "parse_value (Suc k) (skip_ws r2) = parse_value k (skip_ws r2)"
      if "skip_ws s = q # r" and "parse_string_body r = Some (key, rest1)"
        and "skip_ws rest1 = col # r2" for q r key rest1 col r2
    proof -
      from that(1) skip_ws_length [of s] have "length r < length s" by simp
      moreover from parse_string_body_consumes [OF that(2)] have "length rest1 < length r" .
      moreover from that(3) skip_ws_length [of rest1] have "length r2 < length rest1" by simp
      ultimately have "2 * length (skip_ws r2) + 1 \<le> k"
        using b skip_ws_length [of r2] by simp
      then show ?thesis by (rule IHv)
    qed
    have pm: "parse_members (Suc k) r3 = parse_members k r3"
      if "skip_ws s = q # r" and "parse_value k (skip_ws r2) = Some (val, rest2)"
        and "skip_ws rest2 = d # r3" and "length r2 < length s" for q r r2 val rest2 d r3
    proof -
      from parse_consumes(1) [OF that(2)] skip_ws_length [of r2] have "length rest2 < length r2"
        by simp
      moreover from that(3) skip_ws_length [of rest2] have "length r3 < length rest2" by simp
      ultimately have "2 * length r3 + 2 \<le> k" using b that(4) by simp
      then show ?thesis by (rule IHm)
    qed
    have l: "length r2 < length s"
      if "skip_ws s = q # r" and "parse_string_body r = Some (key, rest1)"
        and "skip_ws rest1 = col # r2" for q r key rest1 col r2
    proof -
      from that(1) skip_ws_length [of s] have "length r < length s" by simp
      moreover from parse_string_body_consumes [OF that(2)] have "length rest1 < length r" .
      moreover from that(3) skip_ws_length [of rest1] have "length r2 < length rest1" by simp
      ultimately show ?thesis by simp
    qed
    show ?thesis
      unfolding parse_members.simps(2) [of "Suc k" s] parse_members.simps(2) [of k s]
      by (auto simp: pv pm l split: list.splits option.splits simp del: parse_members.simps parse_value.simps)
  qed
  from v e m show ?case by blast
qed

lemma parse_value_fuel:
  "2 * length s + 1 \<le> k \<Longrightarrow> parse_value (k + j) s = parse_value k s"
proof (induction j)
  case 0
  then show ?case by simp
next
  case (Suc j)
  from Suc.prems have "2 * length s + 1 \<le> k + j" by simp
  with parse_fuel_step [of s "k + j"] have "parse_value (Suc (k + j)) s = parse_value (k + j) s"
    by blast
  with Suc show ?case by simp
qed

text \<open>
  A larger bound gives the same result: the parser never fails for want of depth, so
  \<open>JSON_parse\<close> fails only on a text that is not JSON.
\<close>

lemma JSON_parse_bound_enough:
  "2 * length text + 2 \<le> k \<Longrightarrow> JSON_parse_with k text = JSON_parse text"
proof -
  assume "2 * length text + 2 \<le> k"
  then obtain j where k: "k = (2 * length text + 2) + j" by (metis le_Suc_ex)
  from skip_ws_length [of "text"] have "2 * length (skip_ws text) + 1 \<le> 2 * length text + 2"
    by simp
  then have "parse_value ((2 * length text + 2) + j) (skip_ws text)
      = parse_value (2 * length text + 2) (skip_ws text)"
    by (rule parse_value_fuel)
  then show ?thesis unfolding JSON_parse_def JSON_parse_with_def k by simp
qed

subsection \<open>The length of the generated list\<close>

lemma normalize_from_length:
  "normalize_from config index xs = Inr ts \<Longrightarrow> length ts = length xs"
  by (induction xs arbitrary: index ts) (auto split: sum.splits)

lemma slice0_length: "0 \<le> m \<Longrightarrow> int (length (slice0 m xs)) \<le> m"
  by (simp add: slice0_def Let_def)

lemma normalized_length:
  assumes "validateAndNormalizeTasks aiTasks config = Inr ts" and "0 \<le> maxTasks config"
  shows "int (length ts) \<le> maxTasks config"
proof -
  from assms(1) obtain xs where "aiTasks = JArr xs"
    and "normalize_from config 0 (slice0 (maxTasks config) xs) = Inr ts"
    by (auto simp: validateAndNormalizeTasks_def split: json.splits)
  then have "length ts = length (slice0 (maxTasks config) xs)"
    by (simp add: normalize_from_length)
  with slice0_length [OF assms(2)] show ?thesis by simp
qed

lemma preview_loop_length:
  "int (length tasks) < maxTasks config \<Longrightarrow>
     int (length (preview_loop config rnd lines tasks)) \<le> maxTasks config"
  by (induction lines arbitrary: tasks) (auto simp: Let_def)

lemma preview_length:
  "1 \<le> maxTasks config \<Longrightarrow> int (length (parsePreviewPRP rnd prpContent config)) \<le> maxTasks config"
  by (simp add: parsePreviewPRP_def preview_loop_length)

lemma preview_loop_nonempty:
  "tasks \<noteq> [] \<or> (\<exists>line \<in> set lines. has_keyword line) \<Longrightarrow>
     preview_loop config rnd lines tasks \<noteq> []"
  by (induction lines arbitrary: tasks) (auto simp: Let_def)

lemma str_includes_subset: "str_includes s sub \<Longrightarrow> set sub \<subseteq> set s"
proof (induction s)
  case Nil
  then show ?case by simp
next
  case (Cons c cs)
  from Cons.prems consider "prefix sub (c # cs)" | "str_includes cs sub" by auto
  then show ?case
  proof cases
    case 1
    then show ?thesis by (rule set_mono_prefix)
  next
    case 2
    with Cons.IH show ?thesis by auto
  qed
qed

lemma trim_nonempty:
  assumes "x \<in> set s" and "\<not> is_space x"
  shows "trim s \<noteq> []"
proof -
  from assms have d: "dropWhile is_space s \<noteq> []"
    by (auto simp: dropWhile_eq_Nil_conv)
  then have "\<not> is_space (hd (dropWhile is_space s))" by (rule hd_dropWhile)
  moreover from d have "hd (dropWhile is_space s) \<in> set (rev (dropWhile is_space s))" by simp
  ultimately have "dropWhile is_space (rev (dropWhile is_space s)) \<noteq> []"
    by (auto simp: dropWhile_eq_Nil_conv)
  then show ?thesis by (simp add: trim_def)
qed

lemma keyword_line_not_blank: "has_keyword line \<Longrightarrow> trim line \<noteq> []"
proof -
  assume "has_keyword line"
  then consider "set ''implement'' \<subseteq> set line" | "set ''create'' \<subseteq> set line"
    | "set ''build'' \<subseteq> set line" | "set ''code'' \<subseteq> set line"
    | "set ''function'' \<subseteq> set line" | "set ''class'' \<subseteq> set line"
    | "set ''component'' \<subseteq> set line" | "set ''api'' \<subseteq> set line"
    | "set ''test'' \<subseteq> set line"
    unfolding has_keyword_def using str_includes_subset by blast
  then have "CHR ''e'' \<in> set line \<or> CHR ''i'' \<in> set line \<or> CHR ''a'' \<in> set line"
    by cases auto
  moreover have "\<not> is_space (CHR ''e'')" and "\<not> is_space (CHR ''i'')" and "\<not> is_space (CHR ''a'')"
    by (simp_all add: is_space_def)
  ultimately show ?thesis using trim_nonempty by blast
qed

lemma preview_nonempty:
  assumes "\<exists>line \<in> set (split_nl prpContent). has_keyword line"
  shows "parsePreviewPRP rnd prpContent config \<noteq> []"
proof -
  from assms obtain line where "line \<in> set (split_nl prpContent)" and k: "has_keyword line"
    by blast
  with keyword_line_not_blank [OF k]
  have "line \<in> set (filter (\<lambda>line. trim line \<noteq> []) (split_nl prpContent))" by simp
  with k show ?thesis
    unfolding parsePreviewPRP_def Let_def by (intro preview_loop_nonempty) blast
qed

lemma generate_bounded:
  assumes "1 \<le> maxTasks config"
  shows "int (length (generateTasksFromPRP reply rnd prpContent config)) \<le> maxTasks config"
proof (cases "tryGenerate reply config")
  case (Inl e)
  with preview_length [OF assms] show ?thesis by (simp add: generateTasksFromPRP_def)
next
  case (Inr ts)
  then obtain content aiTasks where "validateAndNormalizeTasks aiTasks config = Inr ts"
    by (auto simp: tryGenerate_def split: completion.splits option.splits)
  with assms normalized_length [of aiTasks config ts] Inr show ?thesis
    by (simp add: generateTasksFromPRP_def)
qed

subsection \<open>Keywords and lines\<close>

text \<open>
  No keyword holds a line feed, so a content that holds a keyword has a line that holds
  it; and the loop of the fallback stops at the first task when the limit is below 1.
\<close>

lemma str_includes_sublist: "str_includes s sub \<longleftrightarrow> sublist sub s"
  by (induction s) (simp_all add: sublist_Cons_right)

lemma has_keyword_sublist: "has_keyword line \<longleftrightarrow> (\<exists>k \<in> set fallback_keywords. sublist k line)"
  by (simp add: has_keyword_def fallback_keywords_def str_includes_sublist)

lemma split_nl_nonempty: "split_nl s \<noteq> []"
  by (induction s) (auto split: list.splits)

lemma prefix_first_line:
  "prefix k s \<Longrightarrow> CHR 0x0A \<notin> set k \<Longrightarrow> prefix k (hd (split_nl s))"
proof (induction s arbitrary: k)
  case Nil
  then show ?case by simp
next
  case (Cons c cs)
  show ?case
  proof (cases k)
    case Nil
    then show ?thesis by simp
  next
    case (Cons a k')
    with Cons.prems have a: "a = c" and p: "prefix k' cs" and n: "CHR 0x0A \<notin> set k'"
      and c: "c \<noteq> CHR 0x0A" by auto
    from Cons.IH [OF p n] have "prefix k' (hd (split_nl cs))" .
    with a c Cons split_nl_nonempty [of cs] show ?thesis
      by (cases "split_nl cs") simp_all
  qed
qed

lemma sublist_some_line:
  "sublist k s \<Longrightarrow> CHR 0x0A \<notin> set k \<Longrightarrow> \<exists>line \<in> set (split_nl s). sublist k line"
proof (induction s)
  case Nil
  then show ?case by simp
next
  case (Cons c cs)
  from Cons.prems(1) consider "prefix k (c # cs)" | "sublist k cs"
    by (auto simp: sublist_Cons_right)
  then show ?case
  proof cases
    case 1
    from prefix_first_line [OF 1 Cons.prems(2)]
    have "sublist k (hd (split_nl (c # cs)))" by (rule prefix_imp_sublist)
    moreover have "hd (split_nl (c # cs)) \<in> set (split_nl (c # cs))"
      using split_nl_nonempty [of "c # cs"] by (intro hd_in_set)
    ultimately show ?thesis by blast
  next
    case 2
    from Cons.IH [OF 2 Cons.prems(2)] obtain line where
      l: "line \<in> set (split_nl cs)" and s: "sublist k line" by blast
    show ?thesis
    proof (cases "c = CHR 0x0A")
      case True
      with l s show ?thesis by auto
    next
      case False
      obtain l0 ls where sp: "split_nl cs = l0 # ls"
        using split_nl_nonempty [of cs] by (cases "split_nl cs") auto
      with False have e: "split_nl (c # cs) = (c # l0) # ls" by simp
      from l sp consider "line = l0" | "line \<in> set ls" by auto
      then show ?thesis
      proof cases
        case 1
        with s have "sublist k (c # l0)" by (simp add: sublist_Cons_right)
        with e show ?thesis by simp
      next
        case 2
        with s e show ?thesis by auto
      qed
    qed
  qed
qed

lemma keyword_some_line:
  assumes "\<exists>k \<in> set fallback_keywords. sublist k prpContent"
  shows "\<exists>line \<in> set (split_nl prpContent). has_keyword line"
proof -
  from assms obtain k where k: "k \<in> set fallback_keywords" and s: "sublist k prpContent" by blast
  from k have "CHR 0x0A \<notin> set k" by (auto simp: fallback_keywords_def)
  from sublist_some_line [OF s this] k show ?thesis
    unfolding has_keyword_sublist by blast
qed

lemma preview_loop_at_most:
  "int (length tasks) < max 1 (maxTasks config) \<Longrightarrow>
     int (length (preview_loop config rnd lines tasks)) \<le> max 1 (maxTasks config)"
  by (induction lines arbitrary: tasks) (auto simp: Let_def)

lemma preview_at_most:
  "int (length (parsePreviewPRP rnd prpContent config)) \<le> max 1 (maxTasks config)"
  by (simp add: parsePreviewPRP_def preview_loop_at_most)

lemma failure_falls_back:
  assumes "service_failed reply \<or> no_array reply"
  shows "\<exists>e. tryGenerate reply config = Inl e"
  using assms
  by (auto simp: service_failed_def no_array_def tryGenerate_def validateAndNormalizeTasks_def
      split: option.splits json.splits)

lemma empty_at_zero:
  assumes "maxTasks config = 0" and "JSON_parse content = Some (JArr xs)"
  shows "generateTasksFromPRP (Payload content) rnd prpContent config = []"
  using assms
  by (simp add: generateTasksFromPRP_def tryGenerate_def validateAndNormalizeTasks_def slice0_def)

lemma preview_login:
  "parsePreviewPRP rnd ''implement login'' (testConfig m e)
     = [loginTask (if e then Some (real_of_int (\<lfloor>rnd 0 * 8\<rfloor> + 1)) else None)]"
  by (simp add: parsePreviewPRP_def trim_def is_space_def has_keyword_def previewTask_def
        substring0_def testConfig_def loginTask_def Let_def)

lemma parse_arrayA:
  "JSON_parse ''[{\"title\":\"A\"}]'' = Some (JArr [JObj [(''title'', JStr ''A'')]])"
  by code_simp

subsection \<open>Failures are absorbed and the list is bounded\<close>

text \<open>
  Claim C1, as the code has it. For every reply of the service, every content and every
  configuration \<open>generateTasksFromPRP\<close> returns a list (the function is total):
  a failed request, a payload that does not parse as a JSON array, and any other exception
  of the \<open>try\<close> block lead to the list of the fallback. With \<open>maxTasks\<close> at least 1,
  which is what the schema of the tool admits, the list is never longer than
  \<open>maxTasks\<close>, on both paths. With \<open>maxTasks = 0\<close> a parsed array gives the empty
  list, while the fallback, which compares the length with the limit after it has added a
  task, can return one task: its list is never longer than the larger of 1 and
  \<open>maxTasks\<close>. And after a failed request the list is not empty when the content holds
  a keyword.
\<close>

theorem generate_absorbs_failures:
  "(service_failed reply \<or> no_array reply \<or> (\<exists>e. tryGenerate reply config = Inl e) \<longrightarrow>
      generateTasksFromPRP reply rnd prpContent config = parsePreviewPRP rnd prpContent config) \<and>
   (1 \<le> maxTasks config \<longrightarrow>
      int (length (generateTasksFromPRP reply rnd prpContent config)) \<le> maxTasks config) \<and>
   (\<forall>content xs. maxTasks config = 0 \<and> reply = Payload content \<and>
        JSON_parse content = Some (JArr xs) \<longrightarrow>
      generateTasksFromPRP reply rnd prpContent config = []) \<and>
   (service_failed reply \<or> no_array reply \<or> (\<exists>e. tryGenerate reply config = Inl e) \<longrightarrow>
      int (length (generateTasksFromPRP reply rnd prpContent config)) \<le> max 1 (maxTasks config)) \<and>
   (service_failed reply \<and> (\<exists>k \<in> set fallback_keywords. sublist k prpContent) \<longrightarrow>
      generateTasksFromPRP reply rnd prpContent config \<noteq> [])"
proof -
  have fb: "generateTasksFromPRP reply rnd prpContent config = parsePreviewPRP rnd prpContent config"
    if "service_failed reply \<or> no_array reply \<or> (\<exists>e. tryGenerate reply config = Inl e)"
  proof -
    from that failure_falls_back [of reply config] obtain e where "tryGenerate reply config = Inl e"
      by blast
    then show ?thesis by (simp add: generateTasksFromPRP_def)
  qed
  have b1: "int (length (generateTasksFromPRP reply rnd prpContent config)) \<le> maxTasks config"
    if "1 \<le> maxTasks config"
    using that by (rule generate_bounded)
  have b2: "generateTasksFromPRP reply rnd prpContent config = []"
    if "maxTasks config = 0 \<and> reply = Payload content \<and> JSON_parse content = Some (JArr xs)"
    for content xs
    using that empty_at_zero [of config content xs rnd prpContent] by simp
  have b3: "int (length (generateTasksFromPRP reply rnd prpContent config)) \<le> max 1 (maxTasks config)"
    if "service_failed reply \<or> no_array reply \<or> (\<exists>e. tryGenerate reply config = Inl e)"
    using fb [OF that] preview_at_most [of rnd prpContent config] by simp
  have ne: "generateTasksFromPRP reply rnd prpContent config \<noteq> []"
    if "service_failed reply \<and> (\<exists>k \<in> set fallback_keywords. sublist k prpContent)"
  proof -
    from that have "generateTasksFromPRP reply rnd prpContent config
        = parsePreviewPRP rnd prpContent config" by (intro fb) simp
    moreover from that have "\<exists>line \<in> set (split_nl prpContent). has_keyword line"
      by (intro keyword_some_line) simp
    ultimately show ?thesis by (simp add: preview_nonempty)
  qed
  from fb b1 b2 b3 ne show ?thesis by blast
qed

text \<open>
  Witness for C1: the request fails, the content is the line \<open>implement login\<close> and
  the limit is 1; and a payload with an array of one task at the limit 0.
\<close>

theorem generate_absorbs_failures_witness:
  "generateTasksFromPRP NetworkFailure (\<lambda>i. 0) ''implement login'' (testConfig 1 False)
     = [loginTask None] \<and>
   int (length (generateTasksFromPRP NetworkFailure (\<lambda>i. 0) ''implement login'' (testConfig 1 False)))
     \<le> maxTasks (testConfig 1 False) \<and>
   generateTasksFromPRP NetworkFailure (\<lambda>i. 0) ''implement login'' (testConfig 1 False) \<noteq> [] \<and>
   generateTasksFromPRP (Payload ''[{\"title\":\"A\"}]'') (\<lambda>i. 0) ''implement login'' (testConfig 0 False)
     = []"
proof -
  note t1 = generate_absorbs_failures
    [of NetworkFailure "testConfig 1 False" "\<lambda>i. 0" "''implement login''"]
  note t0 = generate_absorbs_failures
    [of "Payload ''[{\"title\":\"A\"}]''" "testConfig 0 False" "\<lambda>i. 0" "''implement login''"]
  have f: "service_failed NetworkFailure" by (simp add: service_failed_def)
  have k: "\<exists>k \<in> set fallback_keywords. sublist k ''implement login''"
  proof
    show "''implement'' \<in> set fallback_keywords" by (simp add: fallback_keywords_def)
    have "prefix ''implement'' ''implement login''" by simp
    then show "sublist ''implement'' ''implement login''" by (rule prefix_imp_sublist)
  qed
  have m1: "1 \<le> maxTasks (testConfig 1 False)" and m0: "maxTasks (testConfig 0 False) = 0"
    by (simp_all add: testConfig_def)
  from t1 f have "generateTasksFromPRP NetworkFailure (\<lambda>i. 0) ''implement login'' (testConfig 1 False)
      = parsePreviewPRP (\<lambda>i. 0) ''implement login'' (testConfig 1 False)" by blast
  then have r: "generateTasksFromPRP NetworkFailure (\<lambda>i. 0) ''implement login'' (testConfig 1 False)
      = [loginTask None]" by (simp add: preview_login)
  from t1 m1 have b: "int (length (generateTasksFromPRP NetworkFailure (\<lambda>i. 0) ''implement login''
      (testConfig 1 False))) \<le> maxTasks (testConfig 1 False)" by blast
  from t1 f k have n: "generateTasksFromPRP NetworkFailure (\<lambda>i. 0) ''implement login''
      (testConfig 1 False) \<noteq> []" by blast
  from t0 m0 parse_arrayA
  have z: "generateTasksFromPRP (Payload ''[{\"title\":\"A\"}]'') (\<lambda>i. 0) ''implement login''
      (testConfig 0 False) = []" by blast
  from r b n z show ?thesis by (simp only: simp_thms)
qed

text \<open>
  The claim as stated fails at \<open>maxTasks = 0\<close> on the path of the fallback: the request
  fails, the content has one line with a keyword, and the list has one task.
\<close>

theorem fallback_exceeds_zero_maxTasks:
  "generateTasksFromPRP NetworkFailure (\<lambda>i. 0) ''implement login'' (testConfig 0 False)
     = [loginTask None] \<and>
   maxTasks (testConfig 0 False) = 0 \<and>
   \<not> int (length (generateTasksFromPRP NetworkFailure (\<lambda>i. 0) ''implement login''
            (testConfig 0 False))) \<le> maxTasks (testConfig 0 False)"
  by (simp add: generateTasksFromPRP_def tryGenerate_def preview_login)
    (simp add: testConfig_def)

subsection \<open>Two runs of the fallback\<close>

lemma previewTask_forget:
  "(previewTask config r1 line)\<lparr>ai_estimatedHours := None\<rparr>
     = (previewTask config r2 line)\<lparr>ai_estimatedHours := None\<rparr>"
  by (simp add: previewTask_def)

lemma preview_loop_forget:
  "map (\<lambda>t. t\<lparr>ai_estimatedHours := None\<rparr>) tasks1 = map (\<lambda>t. t\<lparr>ai_estimatedHours := None\<rparr>) tasks2 \<Longrightarrow>
   map (\<lambda>t. t\<lparr>ai_estimatedHours := None\<rparr>) (preview_loop config rnd1 lines tasks1)
     = map (\<lambda>t. t\<lparr>ai_estimatedHours := None\<rparr>) (preview_loop config rnd2 lines tasks2)"
proof (induction lines arbitrary: tasks1 tasks2)
  case Nil
  then show ?case by simp
next
  case (Cons line lines)
  from Cons.prems have l: "length tasks1 = length tasks2" by (rule map_eq_imp_length_eq)
  show ?case
  proof (cases "has_keyword line")
    case False
    with Cons show ?thesis by simp
  next
    case True
    let ?t1 = "tasks1 @ [previewTask config (rnd1 (length tasks1)) line]"
    let ?t2 = "tasks2 @ [previewTask config (rnd2 (length tasks2)) line]"
    from Cons.prems previewTask_forget [of config "rnd1 (length tasks1)" line "rnd2 (length tasks2)"]
    have e: "map (\<lambda>t. t\<lparr>ai_estimatedHours := None\<rparr>) ?t1 = map (\<lambda>t. t\<lparr>ai_estimatedHours := None\<rparr>) ?t2"
      by simp
    show ?thesis
    proof (cases "int (length ?t1) \<ge> maxTasks config")
      case stop: True
      with True l e show ?thesis by (simp add: Let_def)
    next
      case go: False
      with True l Cons.IH [OF e] show ?thesis by (simp add: Let_def)
    qed
  qed
qed

lemma preview_loop_no_estimates:
  "\<not> estimateHours config \<Longrightarrow>
     preview_loop config rnd1 lines tasks = preview_loop config rnd2 lines tasks"
  by (induction lines arbitrary: tasks) (simp_all add: Let_def previewTask_def)

lemma estimate_range:
  assumes "0 \<le> r" and "r < 1"
  shows "\<lfloor>r * 8\<rfloor> + 1 \<in> {1..8}"
proof -
  from assms have "0 \<le> r * 8" and "r * 8 < 8" by simp_all
  then have "0 \<le> \<lfloor>r * 8\<rfloor>" and "\<lfloor>r * 8\<rfloor> < 8" by (simp_all add: floor_less_iff)
  then show ?thesis by simp
qed

lemma preview_loop_estimates:
  assumes "estimateHours config" and "\<forall>i. 0 \<le> rnd i \<and> rnd i < 1"
  shows "(\<forall>t \<in> set tasks. \<exists>k \<in> {1..8}. ai_estimatedHours t = Some (real_of_int k)) \<Longrightarrow>
         (\<forall>t \<in> set (preview_loop config rnd lines tasks).
            \<exists>k \<in> {1..8}. ai_estimatedHours t = Some (real_of_int k))"
proof (induction lines arbitrary: tasks)
  case Nil
  then show ?case by simp
next
  case (Cons line lines)
  show ?case
  proof (cases "has_keyword line")
    case False
    with Cons show ?thesis by simp
  next
    case True
    let ?t = "previewTask config (rnd (length tasks)) line"
    from assms estimate_range [of "rnd (length tasks)"]
    have "\<lfloor>rnd (length tasks) * 8\<rfloor> + 1 \<in> {1..8}" by blast
    moreover from assms(1)
    have "ai_estimatedHours ?t = Some (real_of_int (\<lfloor>rnd (length tasks) * 8\<rfloor> + 1))"
      by (simp add: previewTask_def)
    ultimately have "\<exists>k \<in> {1..8}. ai_estimatedHours ?t = Some (real_of_int k)"
      by blast
    with Cons.prems have a: "\<forall>t \<in> set (tasks @ [?t]). \<exists>k \<in> {1..8}. ai_estimatedHours t = Some (real_of_int k)"
      by auto
    show ?thesis
    proof (cases "int (length (tasks @ [?t])) \<ge> maxTasks config")
      case stop: True
      with True a show ?thesis by (simp add: Let_def)
    next
      case go: False
      with True Cons.IH [OF a] show ?thesis by (simp add: Let_def)
    qed
  qed
qed

text \<open>
  Claim C6, as the code has it. Two invocations that take the fallback return the same
  tasks but for the hour estimates: the same number of tasks with the same titles,
  descriptions and priorities, in the same order. Without \<open>estimateHours\<close> the two lists
  are equal. With it every task carries an estimate computed from \<open>Math.random()\<close>, a
  whole number from 1 to 8, and nothing makes two invocations draw the same one.
\<close>

theorem fallback_deterministic_except_estimates:
  assumes "tryGenerate reply1 config = Inl e1" and "tryGenerate reply2 config = Inl e2"
  shows "map (\<lambda>t. t\<lparr>ai_estimatedHours := None\<rparr>) (generateTasksFromPRP reply1 rnd1 prpContent config)
           = map (\<lambda>t. t\<lparr>ai_estimatedHours := None\<rparr>) (generateTasksFromPRP reply2 rnd2 prpContent config) \<and>
         (\<not> estimateHours config \<longrightarrow>
            generateTasksFromPRP reply1 rnd1 prpContent config
              = generateTasksFromPRP reply2 rnd2 prpContent config) \<and>
         (estimateHours config \<and> (\<forall>i. 0 \<le> rnd1 i \<and> rnd1 i < 1) \<longrightarrow>
            (\<forall>t \<in> set (generateTasksFromPRP reply1 rnd1 prpContent config).
               \<exists>k \<in> {1..8}. ai_estimatedHours t = Some (real_of_int k)))"
proof -
  from assms have g1: "generateTasksFromPRP reply1 rnd1 prpContent config
      = parsePreviewPRP rnd1 prpContent config"
    and g2: "generateTasksFromPRP reply2 rnd2 prpContent config
      = parsePreviewPRP rnd2 prpContent config"
    by (simp_all add: generateTasksFromPRP_def)
  have "map (\<lambda>t. t\<lparr>ai_estimatedHours := None\<rparr>) (parsePreviewPRP rnd1 prpContent config)
      = map (\<lambda>t. t\<lparr>ai_estimatedHours := None\<rparr>) (parsePreviewPRP rnd2 prpContent config)"
    unfolding parsePreviewPRP_def Let_def by (rule preview_loop_forget) simp
  moreover have "parsePreviewPRP rnd1 prpContent config = parsePreviewPRP rnd2 prpContent config"
    if "\<not> estimateHours config"
    unfolding parsePreviewPRP_def Let_def using that by (rule preview_loop_no_estimates)
  moreover have "\<forall>t \<in> set (parsePreviewPRP rnd1 prpContent config).
               \<exists>k \<in> {1..8}. ai_estimatedHours t = Some (real_of_int k)"
    if "estimateHours config" and "\<forall>i. 0 \<le> rnd1 i \<and> rnd1 i < 1"
    unfolding parsePreviewPRP_def Let_def using that by (intro preview_loop_estimates) simp_all
  ultimately show ?thesis unfolding g1 g2 by blast
qed

theorem fallback_deterministic_except_estimates_witness:
  "map (\<lambda>t. t\<lparr>ai_estimatedHours := None\<rparr>)
     (generateTasksFromPRP NetworkFailure (\<lambda>i. 0) ''implement login'' (testConfig 5 True))
   = map (\<lambda>t. t\<lparr>ai_estimatedHours := None\<rparr>)
     (generateTasksFromPRP (HttpError 500) (\<lambda>i. 7 / 8) ''implement login'' (testConfig 5 True)) \<and>
   generateTasksFromPRP NetworkFailure (\<lambda>i. 0) ''implement login'' (testConfig 5 True)
     = [loginTask (Some 1)]"
proof -
  have 1: "tryGenerate NetworkFailure (testConfig 5 True) = Inl TypeError"
    and 2: "tryGenerate (HttpError 500) (testConfig 5 True) = Inl ApiError"
    by (simp_all add: tryGenerate_def)
  have "generateTasksFromPRP NetworkFailure (\<lambda>i. 0) ''implement login'' (testConfig 5 True)
     = [loginTask (Some 1)]"
    by (simp add: generateTasksFromPRP_def 1 preview_login)
  with fallback_deterministic_except_estimates [OF 1 2, of "\<lambda>i. 0" "''implement login''" "\<lambda>i. 7 / 8"]
  show ?thesis by blast
qed

text \<open>
  The claim as stated fails with \<open>estimateHours\<close> set: the same content and configuration,
  with \<open>Math.random()\<close> returning 0 in one run and 7/8 in the other, give the estimates 1
  and 8.
\<close>

theorem fallback_estimates_differ:
  "generateTasksFromPRP NetworkFailure (\<lambda>i. 0) ''implement login'' (testConfig 5 True)
     = [loginTask (Some 1)] \<and>
   generateTasksFromPRP NetworkFailure (\<lambda>i. 7 / 8) ''implement login'' (testConfig 5 True)
     = [loginTask (Some 8)] \<and>
   loginTask (Some 1) \<noteq> loginTask (Some 8)"
  by (simp add: generateTasksFromPRP_def tryGenerate_def preview_login loginTask_def)

subsection \<open>A payload with prose around the array\<close>

lemma parse_value_needs_start: "\<not> starts_json_value s \<Longrightarrow> parse_value n s = None"
proof (cases n)
  case 0
  then show ?thesis by simp
next
  case (Suc m)
  assume "\<not> starts_json_value s"
  with Suc show ?thesis
    by (cases s) (simp_all add: starts_json_value_def)
qed

lemma JSON_parse_needs_start: "\<not> starts_json_value (skip_ws content) \<Longrightarrow> JSON_parse content = None"
  by (simp add: JSON_parse_def JSON_parse_with_def parse_value_needs_start)

text \<open>
  Claim C7, as the code has it. The payload goes to \<open>JSON.parse\<close> as it is. When the whole
  payload parses and the parsed value normalises, the result is the normalised list. When
  \<open>JSON.parse\<close> rejects the payload the result is the fallback; and it rejects every
  payload that, after white space, does not begin like a JSON value, so prose before the
  array sends the call to the fallback. No array is looked for inside the text.
\<close>

theorem payload_parsed_as_a_whole:
  "(\<forall>aiTasks tasks.
      JSON_parse content = Some aiTasks \<and> validateAndNormalizeTasks aiTasks config = Inr tasks \<longrightarrow>
      generateTasksFromPRP (Payload content) rnd prpContent config = tasks) \<and>
   (JSON_parse content = None \<longrightarrow>
      generateTasksFromPRP (Payload content) rnd prpContent config
        = parsePreviewPRP rnd prpContent config) \<and>
   (\<not> starts_json_value (skip_ws content) \<longrightarrow>
      generateTasksFromPRP (Payload content) rnd prpContent config
        = parsePreviewPRP rnd prpContent config)"
  by (auto simp: generateTasksFromPRP_def tryGenerate_def JSON_parse_needs_start)

lemma normalize_arrayA:
  "validateAndNormalizeTasks (JArr [JObj [(''title'', JStr ''A'')]]) (testConfig 5 False) = Inr [taskA]"
  by (simp add: validateAndNormalizeTasks_def slice0_def normalizeTask_def get_prop_def js_prop_def
        title_substring_def substring0_def js_or_def truthy_def priority_of_def testConfig_def taskA_def)

theorem payload_parsed_as_a_whole_witness:
  "generateTasksFromPRP (Payload ''[{\"title\":\"A\"}]'') (\<lambda>i. 0) ''implement login'' (testConfig 5 False)
     = [taskA]"
  using payload_parsed_as_a_whole [of "''[{\"title\":\"A\"}]''" "testConfig 5 False" "\<lambda>i. 0" "''implement login''"]
    parse_arrayA normalize_arrayA
  by blast

text \<open>
  The claim as stated fails: the array of the witness with a sentence before it is a
  payload that \<open>JSON.parse\<close> rejects, and the result is the fallback's task, not the task
  of the array.
\<close>

theorem prose_wrapped_array_falls_back:
  "generateTasksFromPRP (Payload (''Here are the tasks: '' @ ''[{\"title\":\"A\"}]''))
       (\<lambda>i. 0) ''implement login'' (testConfig 5 False)
     = [loginTask None] \<and>
   JSON_parse ''[{\"title\":\"A\"}]'' = Some (JArr [JObj [(''title'', JStr ''A'')]]) \<and>
   validateAndNormalizeTasks (JArr [JObj [(''title'', JStr ''A'')]]) (testConfig 5 False) = Inr [taskA] \<and>
   [loginTask None] \<noteq> [taskA]"
proof -
  have "\<not> starts_json_value (skip_ws (''Here are the tasks: '' @ ''[{\"title\":\"A\"}]''))"
    by (simp add: starts_json_value_def skip_ws_def is_json_ws_def is_digit_def)
  then have "JSON_parse (''Here are the tasks: '' @ ''[{\"title\":\"A\"}]'') = None"
    by (rule JSON_parse_needs_start)
  then have "generateTasksFromPRP (Payload (''Here are the tasks: '' @ ''[{\"title\":\"A\"}]''))
       (\<lambda>i. 0) ''implement login'' (testConfig 5 False) = [loginTask None]"
    by (simp add: generateTasksFromPRP_def tryGenerate_def preview_login)
  moreover have "[loginTask None] \<noteq> [taskA]" by (simp add: loginTask_def taskA_def)
  ultimately show ?thesis using parse_arrayA normalize_arrayA by blast
qed

end
